theory Spec2Isabelle
  imports
    Complex_Main
    "HOL-Library.Word"
    "HOL-Library.Log_Nat"
    "HOL-Library.Multiset"
    "HOL-Library.Signed_Division"
begin

section \<open>Machine arithmetic of the Go program\<close>

text \<open>
  The statistics engine of \<^verbatim>\<open>cmd/ahdbweb/main.go\<close> computes on three kinds of numbers.
  \<^item> \<^verbatim>\<open>int64\<close> (prices, scan ids, timestamps, bin bounds) is the type of 64-bit words:
    addition, subtraction and multiplication wrap, comparison and division are signed,
    division truncates towards zero.
  \<^item> \<^verbatim>\<open>int\<close> (lengths, counts, the parameters \<^verbatim>\<open>trimPct\<close>, \<^verbatim>\<open>bins\<close>,
    \<^verbatim>\<open>maxPoints\<close>) is modelled by the mathematical integers: the values that occur are
    slice lengths, indices below a length and request parameters, none of which leaves
    the 64-bit range in the arithmetic the program performs on them.
  \<^item> \<^verbatim>\<open>float64\<close> is modelled by the real number a double denotes. Every operation
    computes the exact result and rounds it to the nearest double, ties to even
    (IEEE 754 binary64, 53 significant bits). The exponent range is not modelled: all
    values that occur here are far from overflow and from the subnormal range.
\<close>

type_synonym int64 = "64 word"

definition go_div :: "int64 \<Rightarrow> int64 \<Rightarrow> int64" where
  "go_div a b = word_of_int (sint a sdiv sint b)"

definition go_rem :: "int64 \<Rightarrow> int64 \<Rightarrow> int64" where
  "go_rem a b = word_of_int (sint a smod sint b)"

definition round_even :: "real \<Rightarrow> int" where
  "round_even x = (let f = \<lfloor>x\<rfloor>; r = x - of_int f in
     if r < 1 / 2 then f else if 1 / 2 < r then f + 1 else if even f then f else f + 1)"

text \<open>\<open>ilog2 x\<close> is the binary exponent of a positive \<open>x\<close>: \<open>2 powi ilog2 x \<le> x < 2 powi (ilog2 x + 1)\<close>.\<close>

definition ilog2 :: "real \<Rightarrow> int" where
  "ilog2 x = (if 1 \<le> x then bitlen \<lfloor>x\<rfloor> - 1
              else (let k = bitlen \<lfloor>1 / x\<rfloor> - 1 in if x * 2 powi k = 1 then - k else - k - 1))"

text \<open>Rounding to binary64: the significand is scaled into \<open>[2^52, 2^53)\<close> and rounded.\<close>

definition f64 :: "real \<Rightarrow> real" where
  "f64 x = (if x = 0 then 0 else
     (let e = ilog2 \<bar>x\<bar> - 52 in sgn x * (of_int (round_even (\<bar>x\<bar> / 2 powi e)) * 2 powi e)))"

definition float64_of_int64 :: "int64 \<Rightarrow> real" where
  "float64_of_int64 w = f64 (real_of_int (sint w))"

definition float64_of_int :: "int \<Rightarrow> real" where
  "float64_of_int i = f64 (real_of_int i)"

definition fmul :: "real \<Rightarrow> real \<Rightarrow> real" where
  "fmul a b = f64 (a * b)"

definition fdiv :: "real \<Rightarrow> real \<Rightarrow> real" where
  "fdiv a b = f64 (a / b)"

definition fsqrt :: "real \<Rightarrow> real" where
  "fsqrt a = f64 (sqrt a)"

section \<open>Data model\<close>

record seriesPoint =
  ScanID :: int64
  TS :: int64
  N :: int
  Min_v :: real
  Q1 :: real
  Q3 :: real
  Max_v :: real
  Mean :: real
  Median :: real
  Stddev :: real

record histogramBin =
  Lo :: int64
  Hi :: int64
  Count :: int

record scanAccumulator =
  scanID :: int64
  ts :: int64
  prices :: "int64 list"

text \<open>One row of the query result: \<^verbatim>\<open>rows.Scan(&scanID, &ts, &price)\<close>.\<close>

record priceRow =
  row_scanID :: int64
  row_ts :: int64
  row_price :: int64

text \<open>The zero value \<^verbatim>\<open>seriesPoint{}\<close>.\<close>

definition seriesPoint_zero :: seriesPoint where
  "seriesPoint_zero = \<lparr>ScanID = 0, TS = 0, N = 0, Min_v = 0, Q1 = 0, Q3 = 0, Max_v = 0,
     Mean = 0, Median = 0, Stddev = 0\<rparr>"

section \<open>The scan accumulator, the trimmer and the reducer\<close>

definition medianSorted :: "int64 list \<Rightarrow> real" where
  "medianSorted vals = (let n = length vals in
     if n = 0 then 0
     else if n mod 2 = 1 then float64_of_int64 (vals ! (n div 2))
     else (let lo = vals ! (n div 2 - 1); hi = vals ! (n div 2)
           in fdiv (float64_of_int64 (lo + hi)) 2))"

text \<open>
  Prices of which any two can be added in \<^verbatim>\<open>int64\<close> without wrapping: the range in which
  \<^verbatim>\<open>lo+hi\<close> of \<^verbatim>\<open>medianSorted\<close> is the sum of the two prices.
\<close>

definition price_range :: "int64 list \<Rightarrow> bool" where
  "price_range ps \<longleftrightarrow> (\<forall>p \<in> set ps. - (2 ^ 62) \<le> sint p \<and> sint p < 2 ^ 62)"

definition reset :: "scanAccumulator \<Rightarrow> int64 \<Rightarrow> int64 \<Rightarrow> scanAccumulator" where
  "reset a sid t = a\<lparr>scanID := sid, ts := t, prices := []\<rparr>"

definition add :: "scanAccumulator \<Rightarrow> int64 \<Rightarrow> scanAccumulator" where
  "add a price = a\<lparr>prices := prices a @ [price]\<rparr>"

text \<open>
  \<^verbatim>\<open>trim := int(math.Floor(float64(n) * (float64(trimPct) / 100.0)))\<close>: two conversions, a
  division and a multiplication, each rounded to a double, then the floor. The product is
  not negative, and \<^verbatim>\<open>int(...)\<close> is exact below \<open>2^63\<close> (beyond, Go leaves the conversion to
  the implementation; the handlers only pass \<^verbatim>\<open>trimPct\<close> up to 50).
\<close>

definition trimCount :: "nat \<Rightarrow> int \<Rightarrow> int" where
  "trimCount n trimPct =
     (let trim = \<lfloor>fmul (float64_of_int (int n)) (fdiv (float64_of_int trimPct) 100)\<rfloor>;
          maxTrim = (int n - 1) sdiv 2
      in if trim > maxTrim then maxTrim else trim)"

text \<open>The slice expression \<^verbatim>\<open>values[trim : n-trim]\<close> is \<open>take\<close> after \<open>drop\<close>.\<close>

definition trimSorted :: "int64 list \<Rightarrow> int \<Rightarrow> int64 list" where
  "trimSorted vals trimPct =
     (if trimPct \<le> 0 then vals
      else (let n = length vals in
        if n = 0 then vals
        else (let trim = trimCount n trimPct
              in take (nat (int n - trim) - nat trim) (drop (nat trim) vals))))"

text \<open>
  The loop of \<^verbatim>\<open>point\<close> over \<^verbatim>\<open>prices\<close>, with the loop index \<open>i\<close> and the two running
  variables. The rounding \<open>rnd\<close> applied after each operation is a parameter: the program
  runs the loop with \<open>f64\<close>; with the identity the same recurrence runs in exact arithmetic.

  Go allows a compiler to fuse \<open>x * y + z\<close> into one operation that rounds once (it does so
  on arm64 and on amd64 built with \<^verbatim>\<open>GOAMD64=v3\<close>). The only statement of the loop this
  applies to is \<^verbatim>\<open>m2 += delta * delta2\<close>. The flag \<open>fused\<close> says which of the two
  the build computes: the product rounded before the addition, or product and addition
  rounded once.
\<close>

fun welford ::
  "(real \<Rightarrow> real) \<Rightarrow> bool \<Rightarrow> nat \<Rightarrow> real \<Rightarrow> real \<Rightarrow> int64 list \<Rightarrow> real \<times> real" where
  "welford rnd fused i mean m2 [] = (mean, m2)"
| "welford rnd fused i mean m2 (p # ps) =
     (let x = rnd (real_of_int (sint p));
          delta = rnd (x - mean);
          mean' = rnd (mean + rnd (delta / rnd (real (i + 1))));
          delta2 = rnd (x - mean');
          m2' = (if fused then rnd (m2 + delta * delta2) else rnd (m2 + rnd (delta * delta2)))
      in welford rnd fused (i + 1) mean' m2' ps)"

text \<open>\<^verbatim>\<open>variance = m2 / float64(n)\<close> for \<open>n > 0\<close>, the value whose square root is \<^verbatim>\<open>Stddev\<close>.\<close>

definition variance :: "(real \<Rightarrow> real) \<Rightarrow> bool \<Rightarrow> int64 list \<Rightarrow> real" where
  "variance rnd fused ps = (if length ps > 0
     then rnd (snd (welford rnd fused 0 0 0 ps) / rnd (real (length ps))) else 0)"

definition quartiles :: "int64 list \<Rightarrow> real \<times> real" where
  "quartiles ps = (let n = length ps; median = medianSorted ps in
     if n > 1 then
       (let lower = take (n div 2) ps;
            upper = (if n mod 2 = 0 then drop (n div 2) ps else drop (n div 2 + 1) ps)
        in (if length lower > 0 then medianSorted lower else median,
            if length upper > 0 then medianSorted upper else median))
     else (median, median))"

text \<open>
  The method \<^verbatim>\<open>point\<close>, for a build with (\<open>fused\<close>) or without fused multiply-add. Only
  the field \<^verbatim>\<open>Stddev\<close> depends on the flag.
\<close>

definition point_build :: "bool \<Rightarrow> scanAccumulator \<Rightarrow> int \<Rightarrow> seriesPoint" where
  "point_build fused a trimPct =
     (if length (prices a) = 0 then seriesPoint_zero
      else (let ps = trimSorted (prices a) trimPct; n = length ps in
        if n = 0 then seriesPoint_zero
        else \<lparr>ScanID = scanID a, TS = ts a, N = int n,
               Min_v = float64_of_int64 (ps ! 0),
               Q1 = fst (quartiles ps),
               Q3 = snd (quartiles ps),
               Max_v = float64_of_int64 (ps ! (n - 1)),
               Mean = fst (welford f64 fused 0 0 0 ps),
               Median = medianSorted ps,
               Stddev = fsqrt (variance f64 fused ps)\<rparr>))"

text \<open>\<^verbatim>\<open>point\<close> in a build without fused multiply-add (the default on amd64).\<close>

definition point :: "scanAccumulator \<Rightarrow> int \<Rightarrow> seriesPoint" where
  "point = point_build False"

section \<open>The histogram builder\<close>

text \<open>The index computed for one price in the second loop of \<^verbatim>\<open>makeHistogram\<close>.\<close>

definition binIndex :: "int64 \<Rightarrow> int64 \<Rightarrow> int \<Rightarrow> int64 \<Rightarrow> int" where
  "binIndex mn width bins p =
     (let idx = sint (go_div (p - mn) width);
          idx = (if idx < 0 then 0 else idx)
      in if idx \<ge> bins then bins - 1 else idx)"

fun countPrices :: "int64 \<Rightarrow> int64 \<Rightarrow> int \<Rightarrow> histogramBin list \<Rightarrow> int64 list \<Rightarrow> histogramBin list" where
  "countPrices mn width bins res [] = res"
| "countPrices mn width bins res (p # ps) =
     (let idx = nat (binIndex mn width bins p)
      in countPrices mn width bins (res[idx := (res ! idx)\<lparr>Count := Count (res ! idx) + 1\<rparr>]) ps)"

definition binWidth :: "int64 \<Rightarrow> int \<Rightarrow> int64" where
  "binWidth rng bins =
     (let width = go_div rng (word_of_int bins);
          width = (if go_rem rng (word_of_int bins) \<noteq> 0 then width + 1 else width)
      in if width <s 1 then 1 else width)"

definition emptyBins :: "int64 \<Rightarrow> int64 \<Rightarrow> int \<Rightarrow> histogramBin list" where
  "emptyBins mn width bins =
     map (\<lambda>i. let lo = mn + word_of_nat i * width; hi = lo + width
               in \<lparr>Lo = lo, Hi = hi, Count = 0\<rparr>) [0..<nat bins]"

definition makeHistogram :: "int64 list \<Rightarrow> int \<Rightarrow> int64 \<times> int64 \<times> histogramBin list" where
  "makeHistogram sortedPrices bins0 =
     (let n = length sortedPrices in
      if n = 0 then (0, 0, [])
      else (let mn = sortedPrices ! 0; mx = sortedPrices ! (n - 1) in
        if mn = mx then (mn, mx, [\<lparr>Lo = mn, Hi = mx, Count = int n\<rparr>])
        else (let bins = (if bins0 \<le> 0 then 24 else bins0);
                  rng = mx - mn;
                  width = binWidth rng bins;
                  res = emptyBins mn width bins
              in (mn, mx, countPrices mn width bins res sortedPrices))))"

section \<open>The series builder\<close>

text \<open>
  The part of \<^verbatim>\<open>handleSeries\<close> between the query and the response. The local variables
  of the loop over \<^verbatim>\<open>rows.Next()\<close> form the loop state; the rows that the query
  delivers are a list. (A failing \<^verbatim>\<open>rows.Scan\<close> or \<^verbatim>\<open>rows.Err\<close> ends the
  request with an error response and no points; only complete row streams are modelled.)
\<close>

record seriesLoop =
  points :: "seriesPoint list"
  acc :: scanAccumulator
  curScanID :: int64
  curTS :: int64

definition seriesInit :: seriesLoop where
  "seriesInit = \<lparr>points = [], acc = \<lparr>scanID = 0, ts = 0, prices = []\<rparr>, curScanID = - 1, curTS = 0\<rparr>"

definition seriesRow :: "int \<Rightarrow> seriesLoop \<Rightarrow> priceRow \<Rightarrow> seriesLoop" where
  "seriesRow trimPct s0 r =
     (let s1 = (if curScanID s0 = - 1
                then s0\<lparr>curScanID := row_scanID r, curTS := row_ts r,
                        acc := reset (acc s0) (row_scanID r) (row_ts r)\<rparr>
                else s0);
          s2 = (if row_scanID r \<noteq> curScanID s1
                then s1\<lparr>points := points s1 @ [point (acc s1) trimPct],
                        curScanID := row_scanID r, curTS := row_ts r,
                        acc := reset (acc s1) (row_scanID r) (row_ts r)\<rparr>
                else s1);
          s3 = (if row_ts r \<noteq> curTS s2
                then s2\<lparr>acc := (acc s2)\<lparr>ts := row_ts r\<rparr>, curTS := row_ts r\<rparr>
                else s2)
      in s3\<lparr>acc := add (acc s3) (row_price r)\<rparr>)"

definition seriesFlush :: "int \<Rightarrow> seriesLoop \<Rightarrow> seriesPoint list" where
  "seriesFlush trimPct s =
     (if length (prices (acc s)) > 0 then points s @ [point (acc s) trimPct] else points s)"

text \<open>The point list before sorting.\<close>

definition seriesPoints :: "priceRow list \<Rightarrow> int \<Rightarrow> seriesPoint list" where
  "seriesPoints rows trimPct = seriesFlush trimPct (foldl (seriesRow trimPct) seriesInit rows)"

text \<open>
  The loop state while a scan is open: \<open>pts\<close> are the points emitted so far and \<open>g\<close> are the
  rows of the open scan read so far.
\<close>

definition openScan :: "seriesPoint list \<Rightarrow> priceRow list \<Rightarrow> seriesLoop" where
  "openScan pts g =
     \<lparr>points = pts,
      acc = \<lparr>scanID = row_scanID (hd g), ts = row_ts (last g), prices = map row_price g\<rparr>,
      curScanID = row_scanID (hd g), curTS = row_ts (last g)\<rparr>"

text \<open>
  \<^verbatim>\<open>sort.Slice(points, func(i, j int) bool { return points[i].TS < points[j].TS })\<close>.
  The comparator of the call is \<open>lessTS\<close>, the signed comparison of the two timestamps.
  \<^verbatim>\<open>sort.Slice\<close> belongs to Go's library; it orders the slice by the comparator it is
  given and promises no order among elements that the comparator does not separate. It is
  modelled by \<open>sortSlice\<close>, an insertion sort that decides every step by the comparator.
\<close>

definition lessTS :: "seriesPoint \<Rightarrow> seriesPoint \<Rightarrow> bool" where
  "lessTS a b \<longleftrightarrow> TS a <s TS b"

fun insertBy :: "('a \<Rightarrow> 'a \<Rightarrow> bool) \<Rightarrow> 'a \<Rightarrow> 'a list \<Rightarrow> 'a list" where
  "insertBy lt x [] = [x]"
| "insertBy lt x (y # ys) = (if lt x y then x # y # ys else y # insertBy lt x ys)"

definition sortSlice :: "('a \<Rightarrow> 'a \<Rightarrow> bool) \<Rightarrow> 'a list \<Rightarrow> 'a list" where
  "sortSlice lt xs = foldr (insertBy lt) xs []"

datatype fault = SliceBoundsOutOfRange

text \<open>
  \<^verbatim>\<open>if len(points) > maxPoints { points = points[len(points)-maxPoints:] }\<close>; the slice
  expression panics when its low bound exceeds the length, which is the case for a
  negative \<^verbatim>\<open>maxPoints\<close>.
\<close>

definition lastPoints :: "seriesPoint list \<Rightarrow> int \<Rightarrow> fault + seriesPoint list" where
  "lastPoints pts maxPoints =
     (if int (length pts) > maxPoints
      then (if int (length pts) - maxPoints > int (length pts) then Inl SliceBoundsOutOfRange
            else Inr (drop (nat (int (length pts) - maxPoints)) pts))
      else Inr pts)"

definition handleSeries :: "priceRow list \<Rightarrow> int \<Rightarrow> int \<Rightarrow> fault + seriesPoint list" where
  "handleSeries rows trimPct maxPoints =
     lastPoints (sortSlice lessTS (seriesPoints rows trimPct)) maxPoints"

text \<open>The clamp of \<^verbatim>\<open>parseMaxPointsParam\<close> on the parsed number.\<close>

definition clampMaxPoints :: "int \<Rightarrow> int" where
  "clampMaxPoints v = (if v < 10 then 10 else if v > 5000 then 5000 else v)"

section \<open>The specification's reference notions\<close>

text \<open>
  The definitions of this section follow the words of the specification, not the code;
  the theorems compare them with the program.
\<close>




text \<open>Median of a sorted list of integers: middle element, or average of the two middle ones.\<close>

definition spec_median :: "int list \<Rightarrow> real" where
  "spec_median xs = (let n = length xs in
     if odd n then real_of_int (xs ! (n div 2))
     else (real_of_int (xs ! (n div 2 - 1)) + real_of_int (xs ! (n div 2))) / 2)"

text \<open>The halves of the exclusive median-of-halves method.\<close>

definition spec_lowerHalf :: "'a list \<Rightarrow> 'a list" where
  "spec_lowerHalf xs = take (length xs div 2) xs"

definition spec_upperHalf :: "'a list \<Rightarrow> 'a list" where
  "spec_upperHalf xs = drop (length xs - length xs div 2) xs"

text \<open>The count the trimmer removes from each end according to the specification.\<close>

definition spec_trimCount :: "nat \<Rightarrow> int \<Rightarrow> int" where
  "spec_trimCount n trimPct = min ((int n * trimPct) div 100) ((int n - 1) div 2)"

text \<open>Contiguous groups of rows with the same scan id.\<close>

fun spec_groups :: "priceRow list \<Rightarrow> priceRow list list" where
  "spec_groups [] = []"
| "spec_groups (r # rs) =
     (case spec_groups rs of
        [] \<Rightarrow> [[r]]
      | g # gs \<Rightarrow> if row_scanID r = row_scanID (hd g) then (r # g) # gs else [r] # g # gs)"

text \<open>
  The point of one group: the scan's id, the timestamp of its last row, and the reduction
  of its prices.
\<close>

definition spec_groupPoint :: "int \<Rightarrow> priceRow list \<Rightarrow> seriesPoint" where
  "spec_groupPoint trimPct g =
     point \<lparr>scanID = row_scanID (hd g), ts = row_ts (last g), prices = map row_price g\<rparr> trimPct"

text \<open>Width and bucket of the fixed-width binning, on integers.\<close>

definition spec_width :: "int \<Rightarrow> int \<Rightarrow> int" where
  "spec_width rng bins = max 1 \<lceil>real_of_int rng / real_of_int bins\<rceil>"

definition spec_bucket :: "int \<Rightarrow> int \<Rightarrow> int \<Rightarrow> int" where
  "spec_bucket d width bins = max 0 (min (bins - 1) \<lfloor>real_of_int d / real_of_int width\<rfloor>)"

section \<open>Properties of the rounding\<close>

lemma round_even_of_int: "round_even (of_int n) = n"
  by (simp add: round_even_def)



lemma round_even_floor: "\<lfloor>x\<rfloor> \<le> round_even x" "round_even x \<le> \<lfloor>x\<rfloor> + 1"
  unfolding round_even_def Let_def by auto

lemma round_even_ge_int: "of_int n \<le> x \<Longrightarrow> n \<le> round_even x"
proof -
  assume "of_int n \<le> x"
  then have "n \<le> \<lfloor>x\<rfloor>" by (simp add: le_floor_iff)
  with round_even_floor(1) [of x] show ?thesis by linarith
qed

lemma round_even_le_int: "x \<le> of_int n \<Longrightarrow> round_even x \<le> n"
proof (cases "x = of_int n")
  case True
  then show ?thesis by (simp add: round_even_of_int)
next
  case False
  assume "x \<le> of_int n"
  with False have "x < of_int n" by simp
  then have "\<lfloor>x\<rfloor> < n" by (simp add: floor_less_iff)
  with round_even_floor(2) [of x] show ?thesis by linarith
qed

lemma round_even_mono: "x \<le> y \<Longrightarrow> round_even x \<le> round_even y"
proof (cases "\<lfloor>x\<rfloor> = \<lfloor>y\<rfloor>")
  case True
  assume "x \<le> y"
  with True show ?thesis unfolding round_even_def Let_def by auto
next
  case False
  assume "x \<le> y"
  then have "\<lfloor>x\<rfloor> \<le> \<lfloor>y\<rfloor>" by (rule floor_mono)
  with False have "\<lfloor>x\<rfloor> + 1 \<le> \<lfloor>y\<rfloor>" by simp
  with round_even_floor(2) [of x] round_even_floor(1) [of y] show ?thesis by linarith
qed

lemma ilog2_bounds:
  assumes "0 < x"
  shows "2 powi (ilog2 x) \<le> x \<and> x < 2 powi (ilog2 x + 1)"
proof (cases "1 \<le> x")
  case True
  define m where "m = \<lfloor>x\<rfloor>"
  have m: "0 < m" using True by (simp add: m_def)
  have b: "1 \<le> bitlen m" using m bitlen_eq_zero_iff [of m] bitlen_nonneg [of m] by linarith
  from bitlen_bounds [OF m] have lo: "(2::int) ^ nat (bitlen m - 1) \<le> m" and hi: "m < 2 ^ nat (bitlen m)"
    by auto
  have "real_of_int ((2::int) ^ nat (bitlen m - 1)) \<le> of_int m" using lo by (simp only: of_int_le_iff)
  also have "\<dots> \<le> x" by (simp add: m_def)
  finally have 1: "2 powi (bitlen m - 1) \<le> x" using b by (simp add: power_int_def)
  have "m + 1 \<le> 2 ^ nat (bitlen m)" using hi by simp
  then have "real_of_int (m + 1) \<le> of_int ((2::int) ^ nat (bitlen m))" by (simp only: of_int_le_iff)
  moreover have "x < of_int (m + 1)" by (simp add: m_def)
  ultimately have 2: "x < 2 powi (bitlen m)" using b by (simp add: power_int_def)
  show ?thesis using True 1 2 by (simp add: ilog2_def m_def)
next
  case False
  define y where "y = 1 / x"
  define m where "m = \<lfloor>y\<rfloor>"
  define k where "k = bitlen m - 1"
  have x1: "x < 1" using False by simp
  have y1: "1 < y" using assms x1 by (simp add: y_def)
  have m: "0 < m" using y1 by (simp add: m_def)
  have b: "0 \<le> k" using m bitlen_eq_zero_iff [of m] bitlen_nonneg [of m] unfolding k_def by linarith
  from bitlen_bounds [OF m] have lo: "(2::int) ^ nat k \<le> m" and hi: "m < 2 ^ nat (k + 1)"
    by (auto simp: k_def)
  have "real_of_int ((2::int) ^ nat k) \<le> of_int m" using lo by (simp only: of_int_le_iff)
  also have "\<dots> \<le> y" by (simp add: m_def)
  finally have 1: "2 ^ nat k \<le> y" by simp
  have "m + 1 \<le> 2 ^ nat (k + 1)" using hi by simp
  then have "real_of_int (m + 1) \<le> of_int ((2::int) ^ nat (k + 1))" by (simp only: of_int_le_iff)
  moreover have "y < of_int (m + 1)" by (simp add: m_def)
  ultimately have 2: "y < 2 ^ nat (k + 1)" by simp
  have xk: "x * 2 ^ nat k \<le> 1" using 1 assms by (simp add: y_def field_simps)
  have xk1: "1 < x * 2 ^ nat (k + 1)" using 2 assms by (simp add: y_def field_simps)
  have il: "ilog2 x = (if x * 2 powi k = 1 then - k else - k - 1)"
    using False by (simp add: ilog2_def k_def m_def y_def Let_def)
  have pk: "(2::real) powi k = 2 ^ nat k" using b by (simp add: power_int_def)
  have pmk: "(2::real) powi (- k) = 1 / 2 ^ nat k" using b by (simp add: power_int_def field_simps)
  have pmk1: "(2::real) powi (- k - 1) = 1 / 2 ^ nat (k + 1)" using b 
    by (auto simp add: power_int_def field_simps nat_add_distrib)
  show ?thesis
  proof (cases "x * 2 powi k = 1")
    case True
    then have "x = 1 / 2 ^ nat k" using pk by (simp add: field_simps)
    then have e: "2 powi (- k) = x" using pmk by simp
    have "(2::real) powi (- k + 1) = 2 powi (- k) * 2 powi 1" by (rule power_int_add) simp
    then have "(2::real) powi (- k + 1) = 2 powi (- k) * 2" by simp
    with e assms have "2 powi (- k) \<le> x \<and> x < 2 powi (- k + 1)" by simp
    then show ?thesis using il True by simp
  next
    case neq: False
    then have "x * 2 ^ nat k < 1" using xk pk by simp
    then have a: "x < 2 powi (- k)" unfolding pmk by (simp add: field_simps)
    have c: "2 powi (- k - 1) \<le> x" unfolding pmk1 using xk1 by (simp add: field_simps)
    show ?thesis using il neq a c by simp
  qed
qed

lemma ilog2_unique:
  assumes "2 powi k \<le> x" "x < 2 powi (k + 1)"
  shows "ilog2 x = k"
proof -
  have x: "0 < x" using assms(1) by (meson less_le_trans zero_less_numeral zero_less_power_int)
  from ilog2_bounds [OF x] have j: "2 powi (ilog2 x) \<le> x" "x < 2 powi (ilog2 x + 1)" by auto
  have "\<not> ilog2 x < k"
  proof
    assume "ilog2 x < k"
    then have "(2::real) powi (ilog2 x + 1) \<le> 2 powi k" by (intro power_int_increasing) auto
    with j(2) assms(1) show False by linarith
  qed
  moreover have "\<not> k < ilog2 x"
  proof
    assume "k < ilog2 x"
    then have "(2::real) powi (k + 1) \<le> 2 powi (ilog2 x)" by (intro power_int_increasing) auto
    with j(1) assms(2) show False by linarith
  qed
  ultimately show ?thesis by linarith
qed

lemma ilog2_scale: "0 < x \<Longrightarrow> ilog2 (x * 2 powi k) = ilog2 x + k"
proof (rule ilog2_unique)
  assume x: "0 < x"
  from ilog2_bounds [OF x] have j: "2 powi (ilog2 x) \<le> x" "x < 2 powi (ilog2 x + 1)" by auto
  show "2 powi (ilog2 x + k) \<le> x * 2 powi k" using j(1) by (simp add: power_int_add)
  have "x * 2 powi k < 2 powi (ilog2 x + 1) * 2 powi k" using j(2) by simp
  then show "x * 2 powi k < 2 powi (ilog2 x + k + 1)" by (simp add: power_int_add)
qed

lemma ilog2_mono: "0 < x \<Longrightarrow> x \<le> y \<Longrightarrow> ilog2 x \<le> ilog2 y"
proof (rule ccontr)
  assume x: "0 < x" and xy: "x \<le> y" and n: "\<not> ilog2 x \<le> ilog2 y"
  have y: "0 < y" using x xy by simp
  from n have "(2::real) powi (ilog2 y + 1) \<le> 2 powi (ilog2 x)" by (intro power_int_increasing) auto
  with ilog2_bounds [OF x] ilog2_bounds [OF y] xy show False by linarith
qed


lemma pow2_split: "(2::real) powi (a + b) = 2 powi a * 2 powi b"
  by (rule power_int_add) simp

lemma pow2_52: "(2::real) powi (j - 52) * 2 ^ 52 = 2 powi j"
  using pow2_split [of "j - 52" 52] by simp

lemma pow2_53: "(2::real) powi (j - 52) * 2 ^ 53 = 2 powi (j + 1)"
proof -
  have "(2::real) powi (j + 1) = 2 powi ((j - 52) + 53)"
    by (rule arg_cong [where f = "\<lambda>z. 2 powi z"]) simp
  also have "\<dots> = 2 powi (j - 52) * 2 powi 53" by (rule pow2_split)
  finally show ?thesis by simp
qed

lemma f64_zero: "f64 0 = 0"
  by (simp add: f64_def)

lemma f64_minus: "f64 (- x) = - f64 x"
  by (simp add: f64_def Let_def sgn_minus)

lemma f64_pos:
  "0 < x \<Longrightarrow> f64 x = of_int (round_even (x / 2 powi (ilog2 x - 52))) * 2 powi (ilog2 x - 52)"
  by (simp add: f64_def Let_def)

lemma scaled_bounds:
  assumes "0 < x"
  shows "2 ^ 52 \<le> x / 2 powi (ilog2 x - 52)" and "x / 2 powi (ilog2 x - 52) < 2 ^ 53"
proof -
  from ilog2_bounds [OF assms] have j: "2 powi (ilog2 x) \<le> x" "x < 2 powi (ilog2 x + 1)" by auto
  have p: "(0::real) < 2 powi (ilog2 x - 52)" by simp
  have a: "(2::real) powi (ilog2 x) = 2 powi (ilog2 x - 52) * 2 ^ 52" by (simp only: pow2_52)
  have b: "(2::real) powi (ilog2 x + 1) = 2 powi (ilog2 x - 52) * 2 ^ 53" by (simp only: pow2_53)
  show "2 ^ 52 \<le> x / 2 powi (ilog2 x - 52)"
    using j(1) p unfolding a by (simp add: field_simps)
  show "x / 2 powi (ilog2 x - 52) < 2 ^ 53"
    using j(2) p unfolding b by (simp add: field_simps)
qed

lemma mant_bounds:
  assumes "0 < x"
  shows "2 ^ 52 \<le> round_even (x / 2 powi (ilog2 x - 52))"
    and "round_even (x / 2 powi (ilog2 x - 52)) \<le> 2 ^ 53"
proof -
  have "real_of_int (2 ^ 52) \<le> x / 2 powi (ilog2 x - 52)" using scaled_bounds(1) [OF assms] by simp
  then show "2 ^ 52 \<le> round_even (x / 2 powi (ilog2 x - 52))" by (rule round_even_ge_int)
  have "x / 2 powi (ilog2 x - 52) \<le> real_of_int (2 ^ 53)" using scaled_bounds(2) [OF assms] by simp
  then show "round_even (x / 2 powi (ilog2 x - 52)) \<le> 2 ^ 53" by (rule round_even_le_int)
qed

lemma f64_bounds:
  assumes "0 < x"
  shows "2 powi (ilog2 x) \<le> f64 x" and "f64 x \<le> 2 powi (ilog2 x + 1)"
proof -
  let ?e = "ilog2 x - 52"
  let ?m = "round_even (x / 2 powi ?e)"
  have p: "(0::real) < 2 powi ?e" by simp
  have a: "(2::real) powi (ilog2 x) = 2 ^ 52 * 2 powi ?e"
    using pow2_52 [of "ilog2 x"] by (simp only: mult.commute)
  have b: "(2::real) powi (ilog2 x + 1) = 2 ^ 53 * 2 powi ?e"
    using pow2_53 [of "ilog2 x"] by (simp only: mult.commute)
  have "real_of_int (2 ^ 52) \<le> of_int ?m" using mant_bounds(1) [OF assms] by (simp only: of_int_le_iff)
  then have "2 ^ 52 * 2 powi ?e \<le> real_of_int ?m * 2 powi ?e" using p by simp
  then show "2 powi (ilog2 x) \<le> f64 x" using assms a by (simp add: f64_pos)
  have "real_of_int ?m \<le> of_int (2 ^ 53)" using mant_bounds(2) [OF assms] by (simp only: of_int_le_iff)
  then have "real_of_int ?m * 2 powi ?e \<le> 2 ^ 53 * 2 powi ?e" using p by simp
  then show "f64 x \<le> 2 powi (ilog2 x + 1)" using assms b by (simp add: f64_pos)
qed

lemma f64_pos_pos: "0 < x \<Longrightarrow> 0 < f64 x"
  using f64_bounds(1) [of x] by (meson less_le_trans zero_less_numeral zero_less_power_int)

lemma f64_nonneg: "0 \<le> x \<Longrightarrow> 0 \<le> f64 x"
  using f64_pos_pos [of x] by (cases "x = 0") (auto simp: f64_zero)

lemma f64_mono_pos:
  assumes "0 < x" "x \<le> y"
  shows "f64 x \<le> f64 y"
proof (cases "ilog2 x = ilog2 y")
  case True
  have y: "0 < y" using assms by simp
  have "x / 2 powi (ilog2 y - 52) \<le> y / 2 powi (ilog2 y - 52)"
    using assms(2) by (simp add: divide_right_mono)
  then have "round_even (x / 2 powi (ilog2 y - 52)) \<le> round_even (y / 2 powi (ilog2 y - 52))"
    by (rule round_even_mono)
  then have "real_of_int (round_even (x / 2 powi (ilog2 y - 52)))
             \<le> of_int (round_even (y / 2 powi (ilog2 y - 52)))" by (simp only: of_int_le_iff)
  then show ?thesis using assms(1) y True by (simp add: f64_pos)
next
  case False
  have y: "0 < y" using assms by simp
  from False ilog2_mono [OF assms] have "ilog2 x + 1 \<le> ilog2 y" by simp
  then have "(2::real) powi (ilog2 x + 1) \<le> 2 powi (ilog2 y)" by (intro power_int_increasing) auto
  with f64_bounds(2) [OF assms(1)] f64_bounds(1) [OF y] show ?thesis by linarith
qed

lemma f64_mono: "x \<le> y \<Longrightarrow> f64 x \<le> f64 y"
proof -
  assume xy: "x \<le> y"
  consider "0 < x" | "x \<le> 0" "0 \<le> y" | "y < 0" by linarith
  then show ?thesis
  proof cases
    case 1
    then show ?thesis using xy by (rule f64_mono_pos)
  next
    case 2
    have "f64 (- x) \<ge> 0" using 2(1) by (intro f64_nonneg) simp
    then have "f64 x \<le> 0" by (simp add: f64_minus)
    moreover have "0 \<le> f64 y" using 2(2) by (rule f64_nonneg)
    ultimately show ?thesis by linarith
  next
    case 3
    have "f64 (- y) \<le> f64 (- x)" using 3 xy by (intro f64_mono_pos) auto
    then show ?thesis by (simp add: f64_minus)
  qed
qed

lemma f64_scale: "f64 (x * 2 powi k) = f64 x * 2 powi k"
proof -
  have pos: "f64 (x * 2 powi k) = f64 x * 2 powi k" if x: "0 < x" for x
  proof -
    have xk: "0 < x * 2 powi k" using x by simp
    have e: "ilog2 (x * 2 powi k) - 52 = (ilog2 x - 52) + k" using ilog2_scale [OF x] by simp
    have "(2::real) powi ((ilog2 x - 52) + k) = 2 powi (ilog2 x - 52) * 2 powi k"
      by (rule power_int_add) simp
    then show ?thesis using x xk by (simp add: f64_pos e)
  qed
  consider "0 < x" | "x = 0" | "x < 0" by linarith
  then show ?thesis
  proof cases
    case 1 then show ?thesis by (rule pos)
  next
    case 2 then show ?thesis by (simp add: f64_zero)
  next
    case 3
    then have "f64 (- x * 2 powi k) = f64 (- x) * 2 powi k" by (intro pos) simp
    then show ?thesis by (simp add: f64_minus)
  qed
qed

lemma f64_half: "f64 (x / 2) = f64 x / 2"
  using f64_scale [of x "- 1"] by (simp add: power_int_minus field_simps)


lemma ilog2_one: "ilog2 1 = 0"
  by (rule ilog2_unique) simp_all

lemma f64_one: "f64 1 = 1"
proof -
  have "round_even (2 ^ 52) = 2 ^ 52" using round_even_of_int [of "2 ^ 52"] by simp
  moreover have "(2::real) powi (- 52) * 2 ^ 52 = 1" using pow2_52 [of 0] by simp
  ultimately show ?thesis by (simp add: f64_pos ilog2_one power_int_minus field_simps)
qed

lemma ilog2_pow53: "ilog2 (2 ^ 53) = 53"
  by (rule ilog2_unique) simp_all

lemma f64_of_int_exact:
  assumes m: "0 < m" "m \<le> 2 ^ 53"
  shows "f64 (real_of_int m) = of_int m"
proof -
  let ?j = "ilog2 (of_int m)"
  have mr: "0 < real_of_int m" using m by simp
  have "ilog2 1 \<le> ?j" using m(1) by (intro ilog2_mono) auto
  moreover note ilog2_one
  ultimately have j0: "0 \<le> ?j" by simp
  have "real_of_int m \<le> real_of_int (2 ^ 53)" using m(2) by (simp only: of_int_le_iff)
  then have "real_of_int m \<le> 2 ^ 53" by simp
  then have "?j \<le> ilog2 (2 ^ 53)" using mr by (intro ilog2_mono) auto
  then have j53: "?j \<le> 53" by (simp only: ilog2_pow53)
  show ?thesis
  proof (cases "?j = 53")
    case True
    from ilog2_bounds [OF mr] True have "2 powi 53 \<le> real_of_int m" by simp
    then have "real_of_int (2 ^ 53) \<le> real_of_int m" by simp
    then have "2 ^ 53 \<le> m" by (simp only: of_int_le_iff)
    with m(2) have mm: "m = 2 ^ 53" by simp
    have "f64 (1 * 2 powi 53) = f64 1 * 2 powi 53" by (rule f64_scale)
    then have "f64 (2 ^ 53) = 2 ^ 53" by (simp add: f64_one)
    then show ?thesis by (simp add: mm)
  next
    case False
    with j53 have jl: "?j \<le> 52" by simp
    define d where "d = nat (52 - ?j)"
    have "(2::real) powi ((?j - 52) + (52 - ?j)) = 2 powi (?j - 52) * 2 powi (52 - ?j)"
      by (rule pow2_split)
    then have inv: "2 powi (?j - 52) * (2::real) ^ d = 1" using jl by (simp add: d_def power_int_def)
    have p: "(0::real) < 2 powi (?j - 52)" by simp
    have "real_of_int m / 2 powi (?j - 52) = real_of_int m * 2 ^ d"
      using inv p by (simp add: field_simps)
    also have "\<dots> = real_of_int (m * 2 ^ d)" by simp
    finally have s: "real_of_int m / 2 powi (?j - 52) = real_of_int (m * 2 ^ d)" .
    have "f64 (real_of_int m) = real_of_int (m * 2 ^ d) * 2 powi (?j - 52)"
      using mr by (simp only: f64_pos s round_even_of_int)
    also have "\<dots> = real_of_int m * (2 powi (?j - 52) * 2 ^ d)" by simp
    finally show ?thesis by (simp only: inv mult_1_right)
  qed
qed

lemma f64_repr:
  assumes "\<bar>m\<bar> \<le> 2 ^ 53"
  shows "f64 (of_int m * 2 powi e) = of_int m * 2 powi e"
proof -
  have "f64 (real_of_int m) = of_int m"
  proof -
    consider "0 < m" | "m = 0" | "m < 0" by linarith
    then show ?thesis
    proof cases
      case 1 then show ?thesis using assms by (intro f64_of_int_exact) auto
    next
      case 2 then show ?thesis by (simp add: f64_zero)
    next
      case 3
      then have "f64 (real_of_int (- m)) = of_int (- m)" using assms by (intro f64_of_int_exact) auto
      then show ?thesis by (simp add: f64_minus)
    qed
  qed
  then show ?thesis by (simp add: f64_scale)
qed

lemma f64_idem: "f64 (f64 x) = f64 x"
proof -
  have pos: "f64 (f64 x) = f64 x" if x: "0 < x" for x
  proof -
    have "\<bar>round_even (x / 2 powi (ilog2 x - 52))\<bar> \<le> 2 ^ 53"
      using mant_bounds [OF x] by simp
    then show ?thesis using x by (simp only: f64_pos f64_repr)
  qed
  consider "0 < x" | "x = 0" | "x < 0" by linarith
  then show ?thesis
  proof cases
    case 1 then show ?thesis by (rule pos)
  next
    case 2 then show ?thesis by (simp add: f64_zero)
  next
    case 3
    then have "f64 (f64 (- x)) = f64 (- x)" by (intro pos) simp
    then show ?thesis by (simp add: f64_minus)
  qed
qed





section \<open>The trimmer\<close>

lemma float64_of_int_nonneg: "0 \<le> i \<Longrightarrow> 0 \<le> float64_of_int i"
  by (simp add: float64_of_int_def f64_nonneg)

lemma trimCount_nonneg:
  assumes "0 < n" "0 \<le> trimPct"
  shows "0 \<le> trimCount n trimPct"
proof -
  have "0 \<le> fdiv (float64_of_int trimPct) 100"
    unfolding fdiv_def using assms(2) by (intro f64_nonneg divide_nonneg_nonneg float64_of_int_nonneg) auto
  then have "0 \<le> fmul (float64_of_int (int n)) (fdiv (float64_of_int trimPct) 100)"
    unfolding fmul_def by (intro f64_nonneg mult_nonneg_nonneg float64_of_int_nonneg) auto
  then have "0 \<le> \<lfloor>fmul (float64_of_int (int n)) (fdiv (float64_of_int trimPct) 100)\<rfloor>"
    by simp
  moreover have "0 \<le> (int n - 1) sdiv 2"
    using assms(1) by (simp add: signed_divide_int_def sgn_if)
  ultimately show ?thesis by (simp add: trimCount_def Let_def)
qed

lemma trimCount_le: "0 < n \<Longrightarrow> trimCount n trimPct \<le> (int n - 1) div 2"
  by (simp add: trimCount_def Let_def signed_divide_int_def sgn_if)

lemma trimSorted_length:
  assumes "0 < length vals" "0 < trimPct"
  shows "int (length (trimSorted vals trimPct)) = int (length vals) - 2 * trimCount (length vals) trimPct"
proof -
  let ?n = "length vals" and ?t = "trimCount (length vals) trimPct"
  have t0: "0 \<le> ?t" using assms by (intro trimCount_nonneg) auto
  have t1: "?t \<le> (int ?n - 1) div 2" using assms(1) by (rule trimCount_le)
  then have "2 * ?t \<le> int ?n - 1" by linarith
  with t0 show ?thesis using assms by (simp add: trimSorted_def Let_def)
qed

lemma trimSorted_nonempty: "vals \<noteq> [] \<Longrightarrow> trimSorted vals trimPct \<noteq> []"
proof (cases "0 < trimPct")
  case True
  assume "vals \<noteq> []"
  then have n: "0 < length vals" by simp
  have "trimCount (length vals) trimPct \<le> (int (length vals) - 1) div 2" using n by (rule trimCount_le)
  then have "0 < int (length vals) - 2 * trimCount (length vals) trimPct" by linarith
  then have "0 < int (length (trimSorted vals trimPct))" using trimSorted_length [OF n True] by simp
  then show ?thesis by auto
next
  case False
  assume "vals \<noteq> []"
  with False show ?thesis by (simp add: trimSorted_def)
qed

lemma trimSorted_noop: "trimPct \<le> 0 \<or> vals = [] \<Longrightarrow> trimSorted vals trimPct = vals"
  by (auto simp: trimSorted_def)

text \<open>
  Claim C3. According to the claim, trimming 180 sorted prices at 35 percent removes
  \<open>min (floor (180 * 35 / 100)) (floor (179 / 2)) = 63\<close> prices from each end. The program
  computes the count in binary64: 35 / 100.0 rounds to a double below 0.35, its product
  with 180 rounds to the double just below 63, and the floor is 62. On the prices
  1, ..., 180 the program therefore keeps 63, ..., 118, which is 56 prices instead of 54.
\<close>

theorem trimSorted_180_35:
  "spec_trimCount 180 35 = 63 \<and> trimCount 180 35 = 62 \<and>
   trimSorted (map word_of_nat [1..<181]) 35 = map word_of_nat [63..<119]"
proof -
  have sp: "spec_trimCount 180 35 = 63"
    by (simp add: spec_trimCount_def)
  have tc: "trimCount 180 35 = 62"
    by (simp add: trimCount_def fmul_def fdiv_def float64_of_int_def f64_def ilog2_def
        round_even_def compute_bitlen Let_def signed_divide_int_def)
  have "trimSorted (map word_of_nat [1..<181]) 35 = map word_of_nat [63..<119]"
    by (simp add: trimSorted_def tc take_map drop_map drop_upt take_upt)
  with sp tc show ?thesis by simp
qed

section \<open>The reducer on an empty buffer\<close>

text \<open>
  Claim C10. For every trim percentage, \<open>point\<close> on an accumulator with an empty price
  buffer returns the zero-valued series point: every field is zero, whatever scan id and
  timestamp the accumulator holds. Trimming an empty list returns the empty list, on
  which the reducer's second guard returns the same zero point.
\<close>

theorem point_empty_buffer:
  "point (a\<lparr>prices := []\<rparr>) trimPct = seriesPoint_zero \<and>
   trimSorted [] trimPct = [] \<and>
   seriesPoint_zero = \<lparr>ScanID = 0, TS = 0, N = 0, Min_v = 0, Q1 = 0, Q3 = 0, Max_v = 0,
     Mean = 0, Median = 0, Stddev = 0\<rparr>"
  by (simp add: point_def point_build_def trimSorted_def seriesPoint_zero_def)

section \<open>The histogram builder: counts\<close>


lemma Count_bump_sum:
  "i < length xs \<Longrightarrow>
   sum_list (map Count (xs[i := (xs ! i)\<lparr>Count := Count (xs ! i) + 1\<rparr>])) = sum_list (map Count xs) + 1"
proof (induction xs arbitrary: i)
  case Nil
  then show ?case by simp
next
  case (Cons x xs)
  then show ?case by (cases i) auto
qed

lemma binIndex_range: "0 < bins \<Longrightarrow> 0 \<le> binIndex mn width bins p \<and> binIndex mn width bins p < bins"
  by (simp add: binIndex_def Let_def)

lemma countPrices_length: "length (countPrices mn width bins res ps) = length res"
  by (induction ps arbitrary: res) (simp_all add: Let_def)

lemma countPrices_sum:
  assumes "0 < bins" "length res = nat bins"
  shows "sum_list (map Count (countPrices mn width bins res ps)) = sum_list (map Count res) + int (length ps)"
  using assms(2)
proof (induction ps arbitrary: res)
  case Nil
  then show ?case by simp
next
  case (Cons p ps)
  let ?i = "nat (binIndex mn width bins p)"
  let ?res = "res[?i := (res ! ?i)\<lparr>Count := Count (res ! ?i) + 1\<rparr>]"
  have i: "?i < length res" using binIndex_range [OF assms(1), of mn width p] Cons.prems by linarith
  have "sum_list (map Count (countPrices mn width bins ?res ps)) = sum_list (map Count ?res) + int (length ps)"
    using Cons.prems by (intro Cons.IH) simp
  also have "sum_list (map Count ?res) = sum_list (map Count res) + 1" using i by (rule Count_bump_sum)
  finally show ?case by (simp add: Let_def)
qed

lemma emptyBins_length: "length (emptyBins mn width bins) = nat bins"
  by (simp add: emptyBins_def)

lemma emptyBins_sum: "sum_list (map Count (emptyBins mn width bins)) = 0"
  by (simp add: emptyBins_def Let_def comp_def)

lemma makeHistogram_sum:
  "sum_list (map Count (snd (snd (makeHistogram sortedPrices bins)))) = int (length sortedPrices)"
  by (simp add: makeHistogram_def Let_def countPrices_sum emptyBins_length emptyBins_sum)


text \<open>
  Claim C7. For every price list and every bin count, the counts of the bins returned by
  \<open>makeHistogram\<close> sum to the number of prices it was given (the post-trim count \<open>n\<close> of
  the histogram response); when the first and the last price are equal the histogram is
  the single bin from min to max holding all \<open>n\<close> prices; and for the empty list the
  result is \<open>min = max = 0\<close> with no bins.
\<close>

theorem histogram_counts:
  "sum_list (map Count (snd (snd (makeHistogram sortedPrices bins)))) = int (length sortedPrices) \<and>
   (sortedPrices \<noteq> [] \<and> sortedPrices ! 0 = sortedPrices ! (length sortedPrices - 1) \<longrightarrow>
      makeHistogram sortedPrices bins =
        (sortedPrices ! 0, sortedPrices ! (length sortedPrices - 1),
         [\<lparr>Lo = sortedPrices ! 0, Hi = sortedPrices ! (length sortedPrices - 1),
           Count = int (length sortedPrices)\<rparr>])) \<and>
   makeHistogram [] bins = (0, 0, [])"
  by (simp add: makeHistogram_sum) (simp add: makeHistogram_def Let_def)

theorem histogram_counts_witness:
  "makeHistogram [1, 1, 1, 1] 4 = (1, 1, [\<lparr>Lo = 1, Hi = 1, Count = 4\<rparr>])"
  using histogram_counts [of "[1, 1, 1, 1]" 4] by simp

section \<open>The histogram builder: width and buckets\<close>

lemma sint_word_of_int64:
  "- (2 ^ 63) \<le> k \<Longrightarrow> k < 2 ^ 63 \<Longrightarrow> sint (word_of_int k :: int64) = k"
  by (simp add: signed_of_int signed_take_bit_int_eq_self)

lemma sint64_bounds: "- (2 ^ 63) \<le> sint (w :: int64)" "sint (w :: int64) < 2 ^ 63"
  using sint_ge [of w] sint_lt [of w] by simp_all

lemma sdiv_pos: "0 < b \<Longrightarrow> a sdiv b = (if 0 \<le> a then a div b else - ((- a) div b))" for a b :: int
  by (simp add: signed_divide_int_def sgn_if)

lemma smod_pos: "0 < b \<Longrightarrow> a smod b = (if 0 \<le> a then a mod b else - ((- a) mod b))" for a b :: int
  by (simp add: signed_modulo_int_def sgn_if)

lemma sdiv_pos_range:
  fixes a b :: int
  assumes "0 < b" "- (2 ^ 63) \<le> a" "a < 2 ^ 63"
  shows "- (2 ^ 63) \<le> a sdiv b \<and> a sdiv b < 2 ^ 63"
proof (cases "0 \<le> a")
  case True
  then have "a div b \<le> a" by (cases "a = 0") (simp_all add: int_div_le_self)
  moreover have "0 \<le> a div b" using True assms(1) by (simp add: pos_imp_zdiv_nonneg_iff)
  ultimately show ?thesis using assms True by (simp add: sdiv_pos)
next
  case False
  then have "(- a) div b \<le> - a" by (intro int_div_le_self) simp
  moreover have "0 \<le> (- a) div b" using False assms(1) by (simp add: pos_imp_zdiv_nonneg_iff)
  ultimately show ?thesis using assms False by (simp add: sdiv_pos)
qed

lemma sint_go_div:
  assumes "0 < sint b"
  shows "sint (go_div a b) = sint a sdiv sint b"
  unfolding go_div_def
  using sdiv_pos_range [OF assms sint64_bounds(1) sint64_bounds(2), of a]
  by (intro sint_word_of_int64) auto

lemma go_rem_eq_0:
  assumes "0 < sint b"
  shows "go_rem a b = 0 \<longleftrightarrow> sint a smod sint b = 0"
proof -
  have r: "- (2 ^ 63) \<le> sint a smod sint b \<and> sint a smod sint b < 2 ^ 63"
  proof (cases "0 \<le> sint a")
    case True
    have 1: "sint a mod sint b < sint b" using assms by simp
    have 2: "0 \<le> sint a mod sint b" using assms by simp
    have e: "sint a smod sint b = sint a mod sint b" using True assms by (simp add: smod_pos)
    show ?thesis unfolding e using 1 2 sint64_bounds(2) [of b] by linarith
  next
    case False
    have 1: "(- sint a) mod sint b < sint b" using assms by simp
    have 2: "0 \<le> (- sint a) mod sint b" using assms by simp
    have e: "sint a smod sint b = - ((- sint a) mod sint b)" using False assms by (simp add: smod_pos)
    show ?thesis unfolding e using 1 2 sint64_bounds(2) [of b] by linarith
  qed
  have "go_rem a b = 0 \<longleftrightarrow> sint (go_rem a b) = 0" by (simp add: signed_eq_0_iff)
  also have "sint (go_rem a b) = sint a smod sint b"
    unfolding go_rem_def using r by (intro sint_word_of_int64) auto
  finally show ?thesis .
qed

lemma ceiling_div_pos:
  assumes "0 < b"
  shows "\<lceil>real_of_int a / real_of_int b\<rceil> = a div b + (if a mod b = 0 then 0 else 1)"
proof -
  have "\<lceil>real_of_int a / real_of_int b\<rceil> = - ((- a) div b)" by (rule ceiling_divide_eq_div)
  also have "\<dots> = a div b + (if a mod b = 0 then 0 else 1)"
    using assms by (simp add: zdiv_zminus1_eq_if)
  finally show ?thesis .
qed

lemma binWidth_spec:
  assumes "0 < bins" "bins < 2 ^ 63"
  shows "sint (binWidth rng bins) = spec_width (sint rng) bins"
proof -
  let ?b = "word_of_int bins :: int64"
  let ?r = "sint rng"
  have b: "sint ?b = bins" using assms by (intro sint_word_of_int64) auto
  have bp: "0 < sint ?b" using b assms by simp
  have q: "sint (go_div rng ?b) = ?r sdiv bins" using sint_go_div [OF bp, of rng] b by simp
  have r0: "go_rem rng ?b = 0 \<longleftrightarrow> ?r smod bins = 0" using go_rem_eq_0 [OF bp, of rng] b by simp
  show ?thesis
  proof (cases "0 \<le> ?r")
    case True
    have c: "\<lceil>real_of_int ?r / real_of_int bins\<rceil> = ?r div bins + (if ?r mod bins = 0 then 0 else 1)"
      using assms(1) by (rule ceiling_div_pos)
    have d0: "0 \<le> ?r div bins" using True assms(1) by (simp add: pos_imp_zdiv_nonneg_iff)
    show ?thesis
    proof (cases "?r mod bins = 0")
      case m: True
      then have "binWidth rng bins = (if go_div rng ?b <s 1 then 1 else go_div rng ?b)"
        using r0 True assms(1) by (simp add: binWidth_def Let_def smod_pos)
      then show ?thesis using q c m True assms(1) d0
        by (auto simp add: word_sless_alt sdiv_pos spec_width_def)
    next
      case m: False
      have "0 \<le> ?r mod bins" using assms(1) by simp
      with m have mp: "0 < ?r mod bins" by simp
      have "?r = ?r div bins * bins + ?r mod bins" by simp
      with mp have lt: "?r div bins * bins < ?r" by linarith
      have "?r div bins * 1 \<le> ?r div bins * bins" using d0 assms(1) by (intro mult_left_mono) auto
      with lt have "?r div bins < ?r" by simp
      then have rg: "- (2 ^ 63) \<le> ?r div bins + 1 \<and> ?r div bins + 1 < 2 ^ 63"
        using d0 sint64_bounds(2) [of rng] by simp
      have "go_div rng ?b + 1 = word_of_int (?r div bins + 1)"
        unfolding go_div_def b using assms(1) True by (simp add: sdiv_pos)
      then have s: "sint (go_div rng ?b + 1) = ?r div bins + 1"
        using rg by (simp only: sint_word_of_int64)
      have "binWidth rng bins = (if go_div rng ?b + 1 <s 1 then 1 else go_div rng ?b + 1)"
        using r0 True m assms(1) by (simp add: binWidth_def Let_def smod_pos)
      then show ?thesis using s c m d0
        by (auto simp add: word_sless_alt spec_width_def)
    qed
  next
    case False
    have q0: "?r sdiv bins \<le> 0"
      using False assms(1) by (simp add: sdiv_pos pos_imp_zdiv_nonneg_iff)
    have "\<lceil>real_of_int ?r / real_of_int bins\<rceil> = - ((- ?r) div bins)"
      by (rule ceiling_divide_eq_div)
    moreover have "?r sdiv bins = - ((- ?r) div bins)" using False assms(1) by (simp add: sdiv_pos)
    ultimately have c: "\<lceil>real_of_int ?r / real_of_int bins\<rceil> = ?r sdiv bins" by (simp only:)
    have sp: "spec_width ?r bins = 1" using c q0 by (simp add: spec_width_def)
    show ?thesis
    proof (cases "go_rem rng ?b = 0")
      case True
      then have "binWidth rng bins = (if go_div rng ?b <s 1 then 1 else go_div rng ?b)"
        by (simp add: binWidth_def Let_def)
      then show ?thesis using q q0 sp by (auto simp add: word_sless_alt)
    next
      case False
      have rg: "- (2 ^ 63) \<le> ?r sdiv bins + 1 \<and> ?r sdiv bins + 1 < 2 ^ 63"
        using q0 sdiv_pos_range [OF assms(1) sint64_bounds(1) sint64_bounds(2), of rng] by simp
      have "go_div rng ?b + 1 = word_of_int (?r sdiv bins + 1)"
        unfolding go_div_def b by simp
      then have s: "sint (go_div rng ?b + 1) = ?r sdiv bins + 1"
        using rg by (simp only: sint_word_of_int64)
      have "binWidth rng bins = (if go_div rng ?b + 1 <s 1 then 1 else go_div rng ?b + 1)"
        using False by (simp add: binWidth_def Let_def)
      then show ?thesis using s q0 sp by (auto simp add: word_sless_alt)
    qed
  qed
qed

lemma binIndex_spec:
  assumes "0 < bins" "0 < sint width"
  shows "binIndex mn width bins p = spec_bucket (sint (p - mn)) (sint width) bins"
proof -
  let ?d = "sint (p - mn)" and ?w = "sint width"
  have q: "sint (go_div (p - mn) width) = ?d sdiv ?w" using assms(2) by (rule sint_go_div)
  have f: "\<lfloor>real_of_int ?d / real_of_int ?w\<rfloor> = ?d div ?w" by (rule floor_divide_of_int_eq)
  show ?thesis
  proof (cases "0 \<le> ?d")
    case True
    then have "0 \<le> ?d div ?w" using assms(2) by (simp add: pos_imp_zdiv_nonneg_iff)
    then show ?thesis using True assms q f
      by (auto simp add: binIndex_def Let_def spec_bucket_def sdiv_pos)
  next
    case False
    then have "?d div ?w < 0" using assms(2) by (simp add: pos_imp_zdiv_neg_iff)
    moreover have "0 \<le> (- ?d) div ?w" using False assms(2) by (simp add: pos_imp_zdiv_nonneg_iff)
    ultimately show ?thesis using False assms q f
      by (auto simp add: binIndex_def Let_def spec_bucket_def sdiv_pos)
  qed
qed

lemma countPrices_nth:
  assumes "0 < bins" "length res = nat bins" "i < nat bins"
  shows "Lo (countPrices mn width bins res ps ! i) = Lo (res ! i) \<and>
         Hi (countPrices mn width bins res ps ! i) = Hi (res ! i) \<and>
         Count (countPrices mn width bins res ps ! i) =
           Count (res ! i) + int (length (filter (\<lambda>p. binIndex mn width bins p = int i) ps))"
  using assms(2)
proof (induction ps arbitrary: res)
  case Nil
  then show ?case by simp
next
  case (Cons p ps)
  let ?j = "nat (binIndex mn width bins p)"
  let ?res = "res[?j := (res ! ?j)\<lparr>Count := Count (res ! ?j) + 1\<rparr>]"
  have r: "0 \<le> binIndex mn width bins p" "binIndex mn width bins p < bins"
    using binIndex_range [OF assms(1), of mn width p] by auto
  have j: "?j < length res" using r Cons.prems by linarith
  have i: "i < length res" using assms(3) Cons.prems by simp
  have ij: "?j = i \<longleftrightarrow> binIndex mn width bins p = int i" using r by auto
  have IH: "Lo (countPrices mn width bins ?res ps ! i) = Lo (?res ! i) \<and>
         Hi (countPrices mn width bins ?res ps ! i) = Hi (?res ! i) \<and>
         Count (countPrices mn width bins ?res ps ! i) =
           Count (?res ! i) + int (length (filter (\<lambda>p. binIndex mn width bins p = int i) ps))"
    using Cons.prems by (intro Cons.IH) simp
  show ?case
  proof (cases "?j = i")
    case True
    then have "?res ! i = (res ! i)\<lparr>Count := Count (res ! i) + 1\<rparr>" using i by simp
    then show ?thesis using IH True ij by (simp add: Let_def)
  next
    case False
    then have "?res ! i = res ! i" by simp
    then show ?thesis using IH False ij by (simp add: Let_def)
  qed
qed

lemma emptyBins_nth:
  "i < nat bins \<Longrightarrow> emptyBins mn width bins ! i =
     \<lparr>Lo = mn + word_of_nat i * width, Hi = mn + word_of_nat i * width + width, Count = 0\<rparr>"
  by (simp add: emptyBins_def Let_def)

lemma spec_width_pos: "1 \<le> spec_width rng bins"
  by (simp add: spec_width_def)


lemma makeHistogram_nth:
  assumes "sortedPrices \<noteq> []"
    and "sortedPrices ! 0 \<noteq> sortedPrices ! (length sortedPrices - 1)"
    and "0 < bins" and "bins < 2 ^ 63" and "i < nat bins"
  shows "let mn = sortedPrices ! 0; mx = sortedPrices ! (length sortedPrices - 1);
             width = spec_width (sint (mx - mn)) bins;
             res = snd (snd (makeHistogram sortedPrices bins))
         in length res = nat bins \<and>
            Lo (res ! i) = mn + word_of_nat i * word_of_int width \<and>
            Hi (res ! i) = Lo (res ! i) + word_of_int width \<and>
            Count (res ! i) = int (length (filter
              (\<lambda>p. spec_bucket (sint (p - mn)) width bins = int i) sortedPrices))"
proof -
  define mn where "mn = sortedPrices ! 0"
  define mx where "mx = sortedPrices ! (length sortedPrices - 1)"
  define w where "w = binWidth (mx - mn) bins"
  define res where "res = countPrices mn w bins (emptyBins mn w bins) sortedPrices"
  have mh: "makeHistogram sortedPrices bins = (mn, mx, res)"
    using assms(1,2,3) by (simp add: makeHistogram_def Let_def mn_def mx_def w_def res_def)
  have sw: "sint w = spec_width (sint (mx - mn)) bins"
    unfolding w_def using assms(3,4) by (rule binWidth_spec)
  have ww: "word_of_int (spec_width (sint (mx - mn)) bins) = w" using sw [symmetric] by simp
  have wp: "0 < sint w" using sw spec_width_pos [of "sint (mx - mn)" bins] by simp
  have len: "length res = nat bins" by (simp add: res_def countPrices_length emptyBins_length)
  have "Lo (res ! i) = Lo (emptyBins mn w bins ! i) \<and> Hi (res ! i) = Hi (emptyBins mn w bins ! i) \<and>
      Count (res ! i) = Count (emptyBins mn w bins ! i) +
         int (length (filter (\<lambda>p. binIndex mn w bins p = int i) sortedPrices))"
    unfolding res_def using assms(3) emptyBins_length assms(5) by (rule countPrices_nth)
  then have nth: "Lo (res ! i) = mn + word_of_nat i * w \<and> Hi (res ! i) = Lo (res ! i) + w \<and>
      Count (res ! i) = int (length (filter
                 (\<lambda>p. spec_bucket (sint (p - mn)) (sint w) bins = int i) sortedPrices))"
    using assms(3,5) wp by (simp add: emptyBins_nth binIndex_spec)
  show ?thesis
    unfolding mh Let_def mn_def [symmetric] mx_def [symmetric] 
    using len nth by (simp add: ww sw [symmetric])
qed

text \<open>A bin count that is not positive is replaced by 24.\<close>

lemma makeHistogram_default_bins: "bins \<le> 0 \<Longrightarrow> makeHistogram sortedPrices bins = makeHistogram sortedPrices 24"
  by (simp add: makeHistogram_def)

lemma makeHistogram_0_11:
  "makeHistogram [0, 11] 5 =
     (0, 11, [\<lparr>Lo = 0, Hi = 3, Count = 1\<rparr>, \<lparr>Lo = 3, Hi = 6, Count = 0\<rparr>,
              \<lparr>Lo = 6, Hi = 9, Count = 0\<rparr>, \<lparr>Lo = 9, Hi = 12, Count = 1\<rparr>,
              \<lparr>Lo = 12, Hi = 15, Count = 0\<rparr>])"
  by code_simp

section \<open>The histogram builder: intervals\<close>

lemma sint_sub_exact:
  fixes a b :: int64
  assumes "- (2 ^ 63) \<le> sint a - sint b" "sint a - sint b < 2 ^ 63"
  shows "sint (a - b) = sint a - sint b"
proof -
  have "a - b = word_of_int (sint a - sint b)" by simp
  then show ?thesis using assms by (simp only: sint_word_of_int64)
qed

lemma sint_lin_exact:
  fixes a w :: int64
  assumes "- (2 ^ 63) \<le> sint a + k * sint w" "sint a + k * sint w < 2 ^ 63"
  shows "sint (a + word_of_int k * w) = sint a + k * sint w"
proof -
  have "a + word_of_int k * w = word_of_int (sint a + k * sint w)" by simp
  then show ?thesis using assms by (simp only: sint_word_of_int64)
qed

lemma sorted_nth_bounds:
  assumes "sorted (map sint xs)" "p \<in> set xs"
  shows "sint (xs ! 0) \<le> sint p \<and> sint p \<le> sint (xs ! (length xs - 1))"
proof -
  from assms(2) obtain k where k: "k < length xs" "xs ! k = p" by (auto simp: in_set_conv_nth)
  have "map sint xs ! 0 \<le> map sint xs ! k" using assms(1) k(1) by (intro sorted_nth_mono) auto
  moreover have "map sint xs ! k \<le> map sint xs ! (length xs - 1)"
    using assms(1) k(1) by (intro sorted_nth_mono) auto
  moreover have "0 < length xs" using k(1) by auto
  ultimately show ?thesis using k by simp
qed

lemma spec_width_bounds:
  assumes "0 < r" "0 < bins"
  shows "r \<le> bins * spec_width r bins \<and> bins * spec_width r bins \<le> r + bins - 1"
proof -
  have c: "\<lceil>real_of_int r / real_of_int bins\<rceil> = r div bins + (if r mod bins = 0 then 0 else 1)"
    using assms(2) by (rule ceiling_div_pos)
  have e: "r = bins * (r div bins) + r mod bins" by simp
  have m: "0 \<le> r mod bins" "r mod bins < bins" using assms(2) by simp_all
  show ?thesis
  proof (cases "r mod bins = 0")
    case True
    with e have "r = bins * (r div bins)" by simp
    moreover from this assms have "1 \<le> r div bins"
      by (metis int_one_le_iff_zero_less zero_less_mult_pos)
    ultimately show ?thesis using c True assms(2) by (simp add: spec_width_def)
  next
    case False
    have "0 \<le> r div bins" using assms by (simp add: pos_imp_zdiv_nonneg_iff)
    then have w: "spec_width r bins = r div bins + 1" using c False by (simp add: spec_width_def)
    have "bins * (r div bins + 1) = r - r mod bins + bins" using e by (simp add: algebra_simps)
    then show ?thesis using w m False by simp
  qed
qed

lemma int_le_div_iff:
  fixes k d w :: int
  assumes "0 < w"
  shows "k \<le> d div w \<longleftrightarrow> k * w \<le> d"
proof
  assume "k \<le> d div w"
  then have "k * w \<le> (d div w) * w" using assms by (intro mult_right_mono) auto
  also have "\<dots> \<le> d"
  proof -
    have "d = d div w * w + d mod w" by simp
    moreover have "0 \<le> d mod w" using assms by simp
    ultimately show ?thesis by linarith
  qed
  finally show "k * w \<le> d" .
next
  assume "k * w \<le> d"
  then have "(k * w) div w \<le> d div w" using assms by (intro zdiv_mono1) auto
  then show "k \<le> d div w" using assms by simp
qed

lemma bucket_interval:
  assumes "0 \<le> d" "0 < w" "0 < bins" "0 \<le> i" "i < bins"
  shows "spec_bucket d w bins = i \<longleftrightarrow>
           i * w \<le> d \<and> (if i + 1 = bins then True else d < (i + 1) * w)"
proof -
  have f: "\<lfloor>real_of_int d / real_of_int w\<rfloor> = d div w" by (rule floor_divide_of_int_eq)
  have q0: "0 \<le> d div w" using assms(1,2) by (simp add: pos_imp_zdiv_nonneg_iff)
  have b: "spec_bucket d w bins = min (bins - 1) (d div w)"
    using q0 assms(3) by (simp add: spec_bucket_def f)
  have ge: "k \<le> d div w \<longleftrightarrow> k * w \<le> d" for k using assms(2) by (rule int_le_div_iff)
  have lt: "d div w < k \<longleftrightarrow> d < k * w" for k using ge [of k] by linarith
  show ?thesis
  proof (cases "i + 1 = bins")
    case True
    then have "spec_bucket d w bins = i \<longleftrightarrow> i \<le> d div w" using b by auto
    then show ?thesis using True ge [of i] by simp
  next
    case False
    then have "spec_bucket d w bins = i \<longleftrightarrow> i \<le> d div w \<and> d div w < i + 1"
      using b assms(5) by auto
    then show ?thesis using False ge [of i] lt [of "i + 1"] by simp
  qed
qed

text \<open>
  Claim C9, amended. For sorted non-negative prices with \<open>min < max\<close> and
  \<open>max + bins < 2^63\<close> (no bin bound overflows \<^verbatim>\<open>int64\<close>): bin \<open>i\<close> counts exactly the
  prices \<open>p\<close> with \<open>lo \<le> p < hi\<close>, except the final bin, which counts the prices with
  \<open>lo \<le> p \<le> hi\<close>; consecutive bins do not overlap, and the final bin's \<open>hi\<close> is at least
  \<open>max\<close>. So the final bin is closed at its own upper bound, which is where \<open>max\<close> lies
  only when \<open>max\<close> reaches the final bin at all; a maximum below the final bin's \<open>lo\<close> is
  counted in the earlier bin whose half-open interval contains it.
\<close>

theorem histogram_intervals:
  assumes "sorted (map sint sortedPrices)" and "sortedPrices \<noteq> []"
    and "sortedPrices ! 0 \<noteq> sortedPrices ! (length sortedPrices - 1)"
    and "0 \<le> sint (sortedPrices ! 0)"
    and "0 < bins" and "sint (sortedPrices ! (length sortedPrices - 1)) + bins < 2 ^ 63"
    and "i < nat bins"
  shows "let res = snd (snd (makeHistogram sortedPrices bins));
             lo = sint (Lo (res ! i)); hi = sint (Hi (res ! i))
         in Count (res ! i) = int (length (filter
              (\<lambda>p. lo \<le> sint p \<and> (if Suc i = nat bins then sint p \<le> hi else sint p < hi))
              sortedPrices)) \<and>
            (if Suc i = nat bins then sint (sortedPrices ! (length sortedPrices - 1)) \<le> hi
             else hi \<le> sint (Lo (res ! Suc i)))"
proof -
  define mn where "mn = sortedPrices ! 0"
  define mx where "mx = sortedPrices ! (length sortedPrices - 1)"
  define r where "r = sint mx - sint mn"
  define w where "w = spec_width r bins"
  define res where "res = snd (snd (makeHistogram sortedPrices bins))"
  have mnp: "mn \<in> set sortedPrices" and mxp: "mx \<in> set sortedPrices"
    using assms(2) by (simp_all add: mn_def mx_def)
  have bnd: "sint mn \<le> sint p \<and> sint p \<le> sint mx" if "p \<in> set sortedPrices" for p
    using sorted_nth_bounds [OF assms(1) that] by (simp add: mn_def mx_def)
  have mn0: "0 \<le> sint mn" using assms(4) by (simp add: mn_def)
  have mxb: "sint mx + bins < 2 ^ 63" using assms(6) by (simp add: mx_def)
  have "sint mn \<noteq> sint mx" using assms(3) by (auto simp: mn_def mx_def dest: signed_word_eqI)
  with bnd [OF mxp] have r0: "0 < r" by (simp add: r_def)
  have b63: "bins < 2 ^ 63" using mxb mn0 bnd [OF mxp] by linarith
  have rr: "sint (mx - mn) = r"
    unfolding r_def using mn0 r0 sint64_bounds(2) [of mx] by (intro sint_sub_exact) (auto simp: r_def)
  have wb: "r \<le> bins * w" "bins * w \<le> r + bins - 1"
    using spec_width_bounds [OF r0 assms(5)] by (simp_all add: w_def)
  have w1: "1 \<le> w" by (simp add: w_def spec_width_pos)
  have ww: "- (2 ^ 63) \<le> w \<and> w < 2 ^ 63"
  proof -
    have "w * 1 \<le> w * bins" using w1 assms(5) by (intro mult_left_mono) auto
    then have "w \<le> bins * w" by (simp add: mult.commute)
    then show ?thesis using wb(2) w1 mxb mn0 unfolding r_def by linarith
  qed
  have sw: "sint (word_of_int w :: int64) = w" using ww by (intro sint_word_of_int64) auto
  have lin: "sint (mn + word_of_int k * (word_of_int w :: int64)) = sint mn + k * w"
    if k: "0 \<le> k" "k \<le> bins" for k
  proof -
    have "k * w \<le> bins * w" using k w1 by (intro mult_right_mono) auto
    moreover have "0 \<le> k * w" using k w1 by simp
    ultimately have "- (2 ^ 63) \<le> sint mn + k * sint (word_of_int w :: int64) \<and>
          sint mn + k * sint (word_of_int w :: int64) < 2 ^ 63"
      unfolding sw using wb(2) mxb mn0 by (simp add: r_def)
    then show ?thesis using sw by (simp add: sint_lin_exact)
  qed
  have hb: "length res = nat bins \<and>
            Lo (res ! j) = mn + word_of_nat j * word_of_int w \<and>
            Hi (res ! j) = Lo (res ! j) + word_of_int w \<and>
            Count (res ! j) = int (length (filter
              (\<lambda>p. spec_bucket (sint (p - mn)) w bins = int j) sortedPrices))"
    if "j < nat bins" for j
    using makeHistogram_nth [OF assms(2,3,5) b63 that]
    unfolding Let_def mn_def [symmetric] mx_def [symmetric] res_def [symmetric] rr w_def [symmetric] .
  have lo: "sint (Lo (res ! j)) = sint mn + int j * w" if j: "j < nat bins" for j
  proof -
    have "Lo (res ! j) = mn + word_of_int (int j) * word_of_int w"
      using hb [OF j] by simp
    then show ?thesis using j lin [of "int j"] by simp
  qed
  have hi: "sint (Hi (res ! j)) = sint mn + (int j + 1) * w" if j: "j < nat bins" for j
  proof -
    have "Hi (res ! j) = mn + word_of_int (int j) * word_of_int w + word_of_int w"
      using hb [OF j] by simp
    also have "\<dots> = mn + word_of_int (int j + 1) * word_of_int w" by (simp add: algebra_simps)
    finally show ?thesis using j lin [of "int j + 1"] by simp
  qed
  have cnt: "Count (res ! i) = int (length (filter
              (\<lambda>p. spec_bucket (sint (p - mn)) w bins = int i) sortedPrices))"
    using hb [OF assms(7)] by simp
  have eq: "(spec_bucket (sint (p - mn)) w bins = int i) \<longleftrightarrow>
      (sint (Lo (res ! i)) \<le> sint p \<and>
        (if Suc i = nat bins then sint p \<le> sint (Hi (res ! i)) else sint p < sint (Hi (res ! i))))"
    if p: "p \<in> set sortedPrices" for p
  proof -
    have d: "sint (p - mn) = sint p - sint mn"
      using bnd [OF p] mn0 sint64_bounds(2) [of p] by (intro sint_sub_exact) auto
    have d0: "0 \<le> sint p - sint mn" using bnd [OF p] by simp
    have "(spec_bucket (sint p - sint mn) w bins = int i) \<longleftrightarrow>
       int i * w \<le> sint p - sint mn \<and> (if int i + 1 = bins then True else sint p - sint mn < (int i + 1) * w)"
      using d0 w1 assms(5,7) by (intro bucket_interval) auto
    moreover have "int i + 1 = bins \<longleftrightarrow> Suc i = nat bins" using assms(5) by auto
    moreover have "sint p \<le> sint mn + (int i + 1) * w" if "Suc i = nat bins"
    proof -
      from that have "int i + 1 = bins" using assms(5) by auto
      then show ?thesis using bnd [OF p] wb(1) by (simp add: r_def mult.commute)
    qed
    ultimately show ?thesis unfolding d lo [OF assms(7)] hi [OF assms(7)] by auto
  qed
  have "filter (\<lambda>p. spec_bucket (sint (p - mn)) w bins = int i) sortedPrices =
        filter (\<lambda>p. sint (Lo (res ! i)) \<le> sint p \<and>
        (if Suc i = nat bins then sint p \<le> sint (Hi (res ! i)) else sint p < sint (Hi (res ! i)))) sortedPrices"
    using eq by (intro filter_cong) auto
  then have c: "Count (res ! i) = int (length (filter (\<lambda>p. sint (Lo (res ! i)) \<le> sint p \<and>
        (if Suc i = nat bins then sint p \<le> sint (Hi (res ! i)) else sint p < sint (Hi (res ! i)))) sortedPrices))"
    using cnt by simp
  have e: "if Suc i = nat bins then sint mx \<le> sint (Hi (res ! i))
             else sint (Hi (res ! i)) \<le> sint (Lo (res ! Suc i))"
  proof (cases "Suc i = nat bins")
    case True
    then have "int i + 1 = bins" using assms(5) by auto
    then show ?thesis using True wb(1) hi [OF assms(7)] by (simp add: r_def mult.commute)
  next
    case False
    then have "Suc i < nat bins" using assms(7) by simp
    then show ?thesis using False lo [of "Suc i"] hi [OF assms(7)] by (simp add: add.commute)
  qed
  show ?thesis unfolding Let_def res_def [symmetric] mx_def [symmetric] using c e by simp
qed

theorem histogram_intervals_witness:
  "Count (snd (snd (makeHistogram [0, 11] 5)) ! 3) = 1 \<and>
   sint (Hi (snd (snd (makeHistogram [0, 11] 5)) ! 3)) \<le> sint (Lo (snd (snd (makeHistogram [0, 11] 5)) ! 4))"
  using histogram_intervals [of "[0, 11]" 5 3] by (simp add: Let_def makeHistogram_0_11)

text \<open>
  The claim as stated fails: with the prices 0 and 11 and 5 bins the width is 3, the
  maximum 11 lies in the bin \<open>[9, 12)\<close> of index 3, and the final bin \<open>[12, 15)\<close> of index 4
  stays empty.
\<close>

theorem histogram_max_not_in_final_bin:
  "fst (snd (makeHistogram [0, 11] 5)) = 11 \<and>
   length (snd (snd (makeHistogram [0, 11] 5))) = 5 \<and>
   snd (snd (makeHistogram [0, 11] 5)) ! 3 = \<lparr>Lo = 9, Hi = 12, Count = 1\<rparr> \<and>
   snd (snd (makeHistogram [0, 11] 5)) ! 4 = \<lparr>Lo = 12, Hi = 15, Count = 0\<rparr>"
  by (simp add: makeHistogram_0_11)

section \<open>The histogram builder: buckets on integers\<close>



lemma makeHistogram_top:
  "makeHistogram [0, 2 ^ 63 - 1] 5 =
     (0, 2 ^ 63 - 1,
      [\<lparr>Lo = 0, Hi = 1844674407370955162, Count = 1\<rparr>,
       \<lparr>Lo = 1844674407370955162, Hi = 3689348814741910324, Count = 0\<rparr>,
       \<lparr>Lo = 3689348814741910324, Hi = 5534023222112865486, Count = 0\<rparr>,
       \<lparr>Lo = 5534023222112865486, Hi = 7378697629483820648, Count = 0\<rparr>,
       \<lparr>Lo = 7378697629483820648, Hi = - 9223372036854775806, Count = 1\<rparr>])"
  by code_simp

lemma makeHistogram_wide:
  "makeHistogram [- (2 ^ 63), 0, 2 ^ 63 - 1] 5 =
     (- (2 ^ 63), 2 ^ 63 - 1,
      [\<lparr>Lo = - (2 ^ 63), Hi = - (2 ^ 63) + 1, Count = 3\<rparr>,
       \<lparr>Lo = - (2 ^ 63) + 1, Hi = - (2 ^ 63) + 2, Count = 0\<rparr>,
       \<lparr>Lo = - (2 ^ 63) + 2, Hi = - (2 ^ 63) + 3, Count = 0\<rparr>,
       \<lparr>Lo = - (2 ^ 63) + 3, Hi = - (2 ^ 63) + 4, Count = 0\<rparr>,
       \<lparr>Lo = - (2 ^ 63) + 4, Hi = - (2 ^ 63) + 5, Count = 0\<rparr>])"
  by code_simp



text \<open>
  The claim as stated fails where \<^verbatim>\<open>int64\<close> wraps. For the prices \<open>0\<close> and \<open>2^63 - 1\<close> and
  5 bins the width is \<open>1844674407370955162\<close>, and the upper bound of the final bucket
  wraps: \<open>hi\<close> is negative and not \<open>lo + width\<close>. For the prices \<open>-2^63, 0, 2^63 - 1\<close> the
  difference \<open>max - min\<close> wraps to \<open>-1\<close>: the buckets have width 1, not
  \<open>ceil ((2^64 - 1) / 5)\<close>, and all three prices are counted in the first bucket.
\<close>

theorem histogram_buckets_overflow:
  "sint (Lo (snd (snd (makeHistogram [0, 2 ^ 63 - 1] 5)) ! 4)) = 7378697629483820648 \<and>
   sint (Hi (snd (snd (makeHistogram [0, 2 ^ 63 - 1] 5)) ! 4)) = - 9223372036854775806 \<and>
   spec_width (sint (2 ^ 63 - 1 :: int64) - sint (0 :: int64)) 5 = 1844674407370955162 \<and>
   sint (Hi (snd (snd (makeHistogram [- (2 ^ 63), 0, 2 ^ 63 - 1] 5)) ! 0))
     - sint (Lo (snd (snd (makeHistogram [- (2 ^ 63), 0, 2 ^ 63 - 1] 5)) ! 0)) = 1 \<and>
   Count (snd (snd (makeHistogram [- (2 ^ 63), 0, 2 ^ 63 - 1] 5)) ! 0) = 3 \<and>
   spec_width (sint (2 ^ 63 - 1 :: int64) - sint (- (2 ^ 63) :: int64)) 5 = 3689348814741910323"
  using makeHistogram_top makeHistogram_wide by (simp add: spec_width_def)

section \<open>The reducer: median, quartiles and their order\<close>

lemma sint_add_exact:
  fixes a b :: int64
  assumes "- (2 ^ 63) \<le> sint a + sint b" "sint a + sint b < 2 ^ 63"
  shows "sint (a + b) = sint a + sint b"
proof -
  have "a + b = word_of_int (sint a + sint b)" by simp
  then show ?thesis using assms by (simp only: sint_word_of_int64)
qed

lemma trimSorted_segment: "\<exists>t k. trimSorted vals trimPct = take k (drop t vals)"
proof (cases "trimPct \<le> 0 \<or> length vals = 0")
  case True
  then have "trimSorted vals trimPct = take (length vals) (drop 0 vals)"
    by (auto simp: trimSorted_def)
  then show ?thesis by blast
next
  case False
  then show ?thesis by (auto simp: trimSorted_def Let_def)
qed

lemma trimSorted_sorted: "sorted (map sint vals) \<Longrightarrow> sorted (map sint (trimSorted vals trimPct))"
proof -
  assume s: "sorted (map sint vals)"
  obtain t k where e: "trimSorted vals trimPct = take k (drop t vals)"
    using trimSorted_segment by blast
  have "sorted (take k (drop t (map sint vals)))" using s by (intro sorted_wrt_take sorted_wrt_drop)
  then show ?thesis by (simp add: e take_map drop_map)
qed

lemma trimSorted_range: "price_range vals \<Longrightarrow> price_range (trimSorted vals trimPct)"
proof -
  assume r: "price_range vals"
  obtain t k where e: "trimSorted vals trimPct = take k (drop t vals)"
    using trimSorted_segment by blast
  have "set (take k (drop t vals)) \<subseteq> set vals"
    by (meson set_take_subset set_drop_subset subset_trans)
  then show ?thesis using r unfolding e price_range_def by blast
qed

lemma medianSorted_spec:
  assumes "ps \<noteq> []" "price_range ps"
  shows "medianSorted ps = f64 (spec_median (map sint ps))"
proof (cases "odd (length ps)")
  case True
  then have "length ps mod 2 = 1" by (simp add: odd_iff_mod_2_eq_one)
  moreover have "length ps div 2 < length ps" using assms(1) by simp
  ultimately show ?thesis using assms(1) True
    by (simp add: medianSorted_def spec_median_def float64_of_int64_def Let_def)
next
  case False
  let ?n = "length ps"
  let ?lo = "ps ! (?n div 2 - 1)" and ?hi = "ps ! (?n div 2)"
  have n: "0 < ?n" using assms(1) by simp
  have m: "?n mod 2 \<noteq> 1" using False by (simp add: odd_iff_mod_2_eq_one)
  have i: "?n div 2 - 1 < ?n" "?n div 2 < ?n" using n by arith+
  have "?lo \<in> set ps" "?hi \<in> set ps" using i by simp_all
  then have r: "- (2 ^ 62) \<le> sint ?lo \<and> sint ?lo < 2 ^ 62" "- (2 ^ 62) \<le> sint ?hi \<and> sint ?hi < 2 ^ 62"
    using assms(2) unfolding price_range_def by blast+
  have s: "sint (?lo + ?hi) = sint ?lo + sint ?hi" using r by (intro sint_add_exact) auto
  have "medianSorted ps = f64 (f64 (real_of_int (sint ?lo + sint ?hi)) / 2)"
    using n m by (simp only: medianSorted_def Let_def fdiv_def float64_of_int64_def s) simp
  also have "\<dots> = f64 (real_of_int (sint ?lo + sint ?hi) / 2)"
    by (simp only: f64_half [symmetric] f64_idem)
  also have "real_of_int (sint ?lo + sint ?hi) / 2 = spec_median (map sint ps)"
    using False i by (simp add: spec_median_def Let_def)
  finally show ?thesis .
qed

lemma spec_median_bounds:
  assumes "sorted xs" "xs \<noteq> []"
  shows "real_of_int (xs ! 0) \<le> spec_median xs \<and> spec_median xs \<le> real_of_int (xs ! (length xs - 1))"
proof -
  let ?n = "length xs"
  have n: "0 < ?n" using assms(2) by simp
  have i: "?n div 2 - 1 < ?n" "?n div 2 < ?n" "?n div 2 - 1 \<le> ?n - 1" "?n div 2 \<le> ?n - 1" "?n - 1 < ?n"
    using n by arith+
  have a: "xs ! 0 \<le> xs ! (?n div 2)" using assms(1) i by (intro sorted_nth_mono) auto
  have b: "xs ! (?n div 2) \<le> xs ! (?n - 1)" using assms(1) i by (intro sorted_nth_mono) auto
  have c: "xs ! 0 \<le> xs ! (?n div 2 - 1)" using assms(1) i by (intro sorted_nth_mono) auto
  have d: "xs ! (?n div 2 - 1) \<le> xs ! (?n - 1)" using assms(1) i by (intro sorted_nth_mono) auto
  show ?thesis using a b c d by (auto simp: spec_median_def Let_def)
qed

lemma spec_median_halves:
  assumes "sorted xs" "1 < length xs"
  shows "real_of_int (xs ! (length xs div 2 - 1)) \<le> spec_median xs \<and>
         spec_median xs \<le> real_of_int (xs ! (length xs - length xs div 2))"
proof -
  let ?n = "length xs"
  have i: "?n div 2 - 1 \<le> ?n div 2" "?n div 2 < ?n" "?n div 2 \<le> ?n - ?n div 2" "?n - ?n div 2 < ?n"
    using assms(2) by arith+
  have a: "xs ! (?n div 2 - 1) \<le> xs ! (?n div 2)" using assms(1) i by (intro sorted_nth_mono) auto
  have b: "xs ! (?n div 2) \<le> xs ! (?n - ?n div 2)" using assms(1) i by (intro sorted_nth_mono) auto
  have e: "even ?n \<Longrightarrow> ?n - ?n div 2 = ?n div 2" by auto
  show ?thesis using a b e by (auto simp: spec_median_def Let_def)
qed

lemma quartiles_spec:
  assumes "1 < length ps" "price_range ps"
  shows "quartiles ps = (f64 (spec_median (map sint (spec_lowerHalf ps))),
                         f64 (spec_median (map sint (spec_upperHalf ps))))"
proof -
  let ?n = "length ps"
  have lo: "take (?n div 2) ps \<noteq> []" using assms(1) by auto
  have up: "drop (?n - ?n div 2) ps \<noteq> []" using assms(1) by auto
  have k: "?n - ?n div 2 = (if ?n mod 2 = 0 then ?n div 2 else ?n div 2 + 1)" by presburger
  have u: "(if ?n mod 2 = 0 then drop (?n div 2) ps else drop (?n div 2 + 1) ps) = drop (?n - ?n div 2) ps"
    unfolding k by simp
  have rl: "price_range (take (?n div 2) ps)"
    using assms(2) unfolding price_range_def by (meson in_set_takeD)
  have ru: "price_range (drop (?n - ?n div 2) ps)"
    using assms(2) unfolding price_range_def by (meson in_set_dropD)
  have "quartiles ps = (medianSorted (take (?n div 2) ps), medianSorted (drop (?n - ?n div 2) ps))"
    using assms(1) lo up unfolding quartiles_def Let_def u by simp
  then show ?thesis
    by (simp add: medianSorted_spec [OF lo rl] medianSorted_spec [OF up ru] spec_lowerHalf_def spec_upperHalf_def)
qed

lemma quartiles_single: "length ps \<le> 1 \<Longrightarrow> quartiles ps = (medianSorted ps, medianSorted ps)"
  by (simp add: quartiles_def Let_def)

lemma point_fields:
  assumes "prices a \<noteq> []"
  shows "point a trimPct =
     (let ps = trimSorted (prices a) trimPct in
      \<lparr>ScanID = scanID a, TS = ts a, N = int (length ps),
       Min_v = float64_of_int64 (ps ! 0),
       Q1 = fst (quartiles ps), Q3 = snd (quartiles ps),
       Max_v = float64_of_int64 (ps ! (length ps - 1)),
       Mean = fst (welford f64 False 0 0 0 ps),
       Median = medianSorted ps,
       Stddev = fsqrt (variance f64 False ps)\<rparr>)"
  using assms trimSorted_nonempty [OF assms, of trimPct]
  by (simp add: point_def point_build_def Let_def)

lemma point_quartiles_aux:
  assumes "prices a \<noteq> []" "price_range (prices a)"
  shows "let ps = trimSorted (prices a) trimPct; xs = map sint ps; pt = point a trimPct
         in Median pt = f64 (spec_median xs) \<and>
            (if 1 < length ps
             then Q1 pt = f64 (spec_median (spec_lowerHalf xs)) \<and>
                  Q3 pt = f64 (spec_median (spec_upperHalf xs))
             else Q1 pt = Median pt \<and> Q3 pt = Median pt)"
proof -
  define ps where "ps = trimSorted (prices a) trimPct"
  have ne: "ps \<noteq> []" unfolding ps_def using assms(1) by (rule trimSorted_nonempty)
  have r: "price_range ps" unfolding ps_def using assms(2) by (rule trimSorted_range)
  have m: "medianSorted ps = f64 (spec_median (map sint ps))" using ne r by (rule medianSorted_spec)
  have h: "map sint (spec_lowerHalf ps) = spec_lowerHalf (map sint ps)"
          "map sint (spec_upperHalf ps) = spec_upperHalf (map sint ps)"
    by (simp_all add: spec_lowerHalf_def spec_upperHalf_def take_map drop_map)
  have q: "quartiles ps = (if 1 < length ps
      then (f64 (spec_median (spec_lowerHalf (map sint ps))), f64 (spec_median (spec_upperHalf (map sint ps))))
      else (medianSorted ps, medianSorted ps))"
    using quartiles_spec [OF _ r] quartiles_single [of ps] by (auto simp: h)
  show ?thesis
    unfolding point_fields [OF assms(1)] Let_def ps_def [symmetric] using m q by simp
qed

lemma point_order_aux:
  assumes "prices a \<noteq> []" "sorted (map sint (prices a))" "price_range (prices a)"
  shows "let pt = point a trimPct
         in Min_v pt \<le> Q1 pt \<and> Q1 pt \<le> Median pt \<and> Median pt \<le> Q3 pt \<and> Q3 pt \<le> Max_v pt"
proof -
  define ps where "ps = trimSorted (prices a) trimPct"
  define xs where "xs = map sint ps"
  let ?n = "length xs"
  have ne: "ps \<noteq> []" unfolding ps_def using assms(1) by (rule trimSorted_nonempty)
  have r: "price_range ps" unfolding ps_def using assms(3) by (rule trimSorted_range)
  have s: "sorted xs" unfolding xs_def ps_def using assms(2) by (rule trimSorted_sorted)
  have xne: "xs \<noteq> []" using ne by (simp add: xs_def)
  have n: "0 < length ps" using ne by simp
  have mn: "float64_of_int64 (ps ! 0) = f64 (real_of_int (xs ! 0))"
    using n by (simp add: float64_of_int64_def xs_def)
  have mx: "float64_of_int64 (ps ! (length ps - 1)) = f64 (real_of_int (xs ! (?n - 1)))"
    using n by (simp add: float64_of_int64_def xs_def)
  from point_quartiles_aux [OF assms(1,3), of trimPct]
  have md: "Median (point a trimPct) = f64 (spec_median xs)"
    and qq: "if 1 < length ps
             then Q1 (point a trimPct) = f64 (spec_median (spec_lowerHalf xs)) \<and>
                  Q3 (point a trimPct) = f64 (spec_median (spec_upperHalf xs))
             else Q1 (point a trimPct) = Median (point a trimPct) \<and> Q3 (point a trimPct) = Median (point a trimPct)"
    by (simp_all add: Let_def ps_def xs_def)
  have pmn: "Min_v (point a trimPct) = f64 (real_of_int (xs ! 0))"
    and pmx: "Max_v (point a trimPct) = f64 (real_of_int (xs ! (?n - 1)))"
    using mn mx by (simp_all add: point_fields [OF assms(1)] Let_def ps_def [symmetric])
  have b: "real_of_int (xs ! 0) \<le> spec_median xs" "spec_median xs \<le> real_of_int (xs ! (?n - 1))"
    using spec_median_bounds [OF s xne] by auto
  show ?thesis
  proof (cases "1 < length ps")
    case False
    then show ?thesis using qq md pmn pmx b by (simp add: Let_def f64_mono)
  next
    case True
    then have n1: "1 < ?n" by (simp add: xs_def)
    let ?lo = "spec_lowerHalf xs" and ?up = "spec_upperHalf xs"
    have lne: "?lo \<noteq> []" and une: "?up \<noteq> []" using n1 by (auto simp: spec_lowerHalf_def spec_upperHalf_def)
    have ls: "sorted ?lo" unfolding spec_lowerHalf_def using s by (rule sorted_wrt_take)
    have us: "sorted ?up" unfolding spec_upperHalf_def using s by (rule sorted_wrt_drop)
    have ll: "length ?lo = ?n div 2" by (simp add: spec_lowerHalf_def)
    have ul: "length ?up = ?n div 2" using n1 by (simp add: spec_upperHalf_def)
    have i: "0 < ?n div 2" "?n div 2 - 1 < ?n div 2" "?n - ?n div 2 + (?n div 2 - 1) = ?n - 1"
      "?n - ?n div 2 \<le> ?n"
      using n1 by arith+
    have l0: "?lo ! 0 = xs ! 0" using i by (simp add: spec_lowerHalf_def)
    have l1: "?lo ! (length ?lo - 1) = xs ! (?n div 2 - 1)" using i by (simp add: spec_lowerHalf_def)
    have u0: "?up ! 0 = xs ! (?n - ?n div 2)" using i by (simp add: spec_upperHalf_def)
    have u1: "?up ! (length ?up - 1) = xs ! (?n - 1)" unfolding ul using i by (simp add: spec_upperHalf_def)
    have bl: "real_of_int (xs ! 0) \<le> spec_median ?lo" "spec_median ?lo \<le> real_of_int (xs ! (?n div 2 - 1))"
      using spec_median_bounds [OF ls lne] l0 l1 by auto
    have bu: "real_of_int (xs ! (?n - ?n div 2)) \<le> spec_median ?up" "spec_median ?up \<le> real_of_int (xs ! (?n - 1))"
      using spec_median_bounds [OF us une] u0 u1 by auto
    have h: "real_of_int (xs ! (?n div 2 - 1)) \<le> spec_median xs"
            "spec_median xs \<le> real_of_int (xs ! (?n - ?n div 2))"
      using spec_median_halves [OF s n1] by auto
    have "spec_median ?lo \<le> spec_median xs" using bl(2) h(1) by linarith
    moreover have "spec_median xs \<le> spec_median ?up" using bu(1) h(2) by linarith
    ultimately show ?thesis using True qq md pmn pmx bl(1) bu(2) by (simp add: Let_def f64_mono)
  qed
qed

lemma f64_pow62: "f64 (2 ^ 62) = 2 ^ 62"
  using f64_repr [of 1 62] by simp

lemma f64_pow63: "f64 (2 ^ 63) = 2 ^ 63"
  using f64_repr [of 1 63] by simp

lemma sint_pow62: "sint (2 ^ 62 :: int64) = 2 ^ 62"
  using sint_word_of_int64 [of "2 ^ 62"] by simp

lemma medianSorted_overflow: "medianSorted [2 ^ 62, 2 ^ 62] = - (2 ^ 62)"
proof -
  have "f64 (- (2 ^ 63)) = - (2 ^ 63)" using f64_pow63 by (simp only: f64_minus)
  moreover have "f64 (- (2 ^ 62)) = - (2 ^ 62)" using f64_pow62 by (simp only: f64_minus)
  ultimately show ?thesis
    by (simp add: medianSorted_def fdiv_def float64_of_int64_def)
qed

text \<open>
  Claim C1, amended. For every accumulator with a non-empty sorted price buffer whose
  prices lie in \<open>[-2^62, 2^62)\<close>, and every trim percentage, the point produced by the
  reducer satisfies \<open>min \<le> q1 \<le> median \<le> q3 \<le> max\<close>.
\<close>

theorem point_order:
  assumes "prices a \<noteq> []" and "sorted (map sint (prices a))" and "price_range (prices a)"
  shows "let pt = point a trimPct
         in Min_v pt \<le> Q1 pt \<and> Q1 pt \<le> Median pt \<and> Median pt \<le> Q3 pt \<and> Q3 pt \<le> Max_v pt"
  using assms by (rule point_order_aux)

theorem point_order_witness:
  "Min_v (point \<lparr>scanID = 1, ts = 100, prices = [10, 20, 30]\<rparr> 0)
     \<le> Q1 (point \<lparr>scanID = 1, ts = 100, prices = [10, 20, 30]\<rparr> 0) \<and>
   Q1 (point \<lparr>scanID = 1, ts = 100, prices = [10, 20, 30]\<rparr> 0)
     \<le> Median (point \<lparr>scanID = 1, ts = 100, prices = [10, 20, 30]\<rparr> 0) \<and>
   Median (point \<lparr>scanID = 1, ts = 100, prices = [10, 20, 30]\<rparr> 0)
     \<le> Q3 (point \<lparr>scanID = 1, ts = 100, prices = [10, 20, 30]\<rparr> 0) \<and>
   Q3 (point \<lparr>scanID = 1, ts = 100, prices = [10, 20, 30]\<rparr> 0)
     \<le> Max_v (point \<lparr>scanID = 1, ts = 100, prices = [10, 20, 30]\<rparr> 0)"
  using point_order [of "\<lparr>scanID = 1, ts = 100, prices = [10, 20, 30]\<rparr>" 0]
  by (simp add: price_range_def Let_def)

text \<open>
  The claim as stated fails where \<^verbatim>\<open>lo+hi\<close> wraps: for the sorted prices \<open>2^62, 2^62\<close> the
  sum is \<open>-2^63\<close> in \<^verbatim>\<open>int64\<close>, the median is \<open>-2^62\<close>, and the first quartile \<open>2^62\<close>
  lies above it.
\<close>

theorem point_order_overflow:
  "sorted (map sint [2 ^ 62, 2 ^ 62 :: int64]) \<and>
   Q1 (point \<lparr>scanID = 1, ts = 100, prices = [2 ^ 62, 2 ^ 62]\<rparr> 0) = 2 ^ 62 \<and>
   Median (point \<lparr>scanID = 1, ts = 100, prices = [2 ^ 62, 2 ^ 62]\<rparr> 0) = - (2 ^ 62) \<and>
   \<not> Q1 (point \<lparr>scanID = 1, ts = 100, prices = [2 ^ 62, 2 ^ 62]\<rparr> 0)
       \<le> Median (point \<lparr>scanID = 1, ts = 100, prices = [2 ^ 62, 2 ^ 62]\<rparr> 0)"
proof -
  have q: "fst (quartiles [2 ^ 62, 2 ^ 62]) = 2 ^ 62"
    using f64_pow62 by (simp add: quartiles_def medianSorted_def float64_of_int64_def sint_pow62 Let_def)
  show ?thesis
    using q medianSorted_overflow by (simp add: point_fields trimSorted_def Let_def)
qed

text \<open>
  Claim C4, amended. For every accumulator with a non-empty price buffer whose prices lie
  in \<open>[-2^62, 2^62)\<close>, with \<open>ps\<close> the trimmed prices and \<open>n\<close> their number: the median of the
  point is the middle price for odd \<open>n\<close> and the average of the two middle prices for even
  \<open>n\<close>, as a \<^verbatim>\<open>float64\<close>; for \<open>n > 1\<close> the first quartile is the median of the first
  \<open>n div 2\<close> prices and the third quartile the median of the last \<open>n div 2\<close> prices (for odd
  \<open>n\<close> both halves leave out the middle price); for \<open>n \<le> 1\<close> both quartiles are the median.
\<close>

theorem point_quartiles:
  assumes "prices a \<noteq> []" and "price_range (prices a)"
  shows "let ps = trimSorted (prices a) trimPct; xs = map sint ps; pt = point a trimPct
         in Median pt = f64 (spec_median xs) \<and>
            (if 1 < length ps
             then Q1 pt = f64 (spec_median (spec_lowerHalf xs)) \<and>
                  Q3 pt = f64 (spec_median (spec_upperHalf xs))
             else Q1 pt = Median pt \<and> Q3 pt = Median pt)"
  using assms by (rule point_quartiles_aux)

theorem point_quartiles_witness:
  "Median (point \<lparr>scanID = 1, ts = 100, prices = [10, 20, 30, 40, 60]\<rparr> 0) = 30 \<and>
   Q1 (point \<lparr>scanID = 1, ts = 100, prices = [10, 20, 30, 40, 60]\<rparr> 0) = 15 \<and>
   Q3 (point \<lparr>scanID = 1, ts = 100, prices = [10, 20, 30, 40, 60]\<rparr> 0) = 50"
proof -
  have "f64 30 = 30" "f64 15 = 15" "f64 50 = 50"
    using f64_repr [of 30 0] f64_repr [of 15 0] f64_repr [of 50 0] by simp_all
  then show ?thesis
    using point_quartiles [of "\<lparr>scanID = 1, ts = 100, prices = [10, 20, 30, 40, 60]\<rparr>" 0]
    by (simp add: price_range_def Let_def trimSorted_def spec_median_def spec_lowerHalf_def
        spec_upperHalf_def)
qed

text \<open>
  The claim as stated fails where \<^verbatim>\<open>lo+hi\<close> wraps: the average of the two middle prices
  \<open>2^62, 2^62\<close> is \<open>2^62\<close>, the median of the point is \<open>-2^62\<close>.
\<close>

theorem point_median_overflow:
  "spec_median (map sint [2 ^ 62, 2 ^ 62 :: int64]) = 2 ^ 62 \<and>
   Median (point \<lparr>scanID = 1, ts = 100, prices = [2 ^ 62, 2 ^ 62]\<rparr> 0) = - (2 ^ 62)"
  using medianSorted_overflow sint_pow62
  by (simp add: point_fields trimSorted_def Let_def spec_median_def)

section \<open>The series builder: grouping\<close>

lemma seriesRow_init: "seriesRow trimPct seriesInit r = openScan [] [r]"
  by (simp add: seriesRow_def seriesInit_def openScan_def reset_def add_def Let_def)

lemma seriesRow_open:
  assumes "g \<noteq> []" "row_scanID (hd g) \<noteq> - 1"
  shows "seriesRow trimPct (openScan pts g) r =
     (if row_scanID r = row_scanID (hd g) then openScan pts (g @ [r])
      else openScan (pts @ [spec_groupPoint trimPct g]) [r])"
  using assms
  by (simp add: seriesRow_def openScan_def reset_def add_def Let_def spec_groupPoint_def)

lemma seriesFlush_open:
  "g \<noteq> [] \<Longrightarrow> seriesFlush trimPct (openScan pts g) = pts @ [spec_groupPoint trimPct g]"
  by (simp add: seriesFlush_def openScan_def spec_groupPoint_def)

lemma spec_groups_Cons: "spec_groups (r # rs) \<noteq> [] \<and> hd (hd (spec_groups (r # rs))) = r"
  by (simp split: list.splits)

lemma spec_groups_block:
  assumes "g \<noteq> []" "\<forall>x \<in> set g. row_scanID x = c" "rs = [] \<or> row_scanID (hd rs) \<noteq> c"
  shows "spec_groups (g @ rs) = g # spec_groups rs"
  using assms
proof (induction g)
  case Nil
  then show ?case by simp
next
  case (Cons x g)
  show ?case
  proof (cases "g = []")
    case True
    show ?thesis
    proof (cases rs)
      case Nil
      with True show ?thesis by simp
    next
      case (Cons r rs')
      with spec_groups_Cons [of r rs'] obtain h hs where h: "spec_groups rs = h # hs" "hd h = r"
        by (cases "spec_groups (r # rs')") auto
      with True Cons Cons.prems show ?thesis by simp
    qed
  next
    case False
    then have "spec_groups (g @ rs) = g # spec_groups rs" using Cons by simp
    moreover have "row_scanID x = row_scanID (hd g)" using False Cons.prems(2) by (cases g) auto
    ultimately show ?thesis by simp
  qed
qed

lemma series_fold_open:
  assumes "g \<noteq> []" "\<forall>x \<in> set g. row_scanID x = c" "c \<noteq> - 1" "\<forall>r \<in> set rs. row_scanID r \<noteq> - 1"
  shows "seriesFlush trimPct (foldl (seriesRow trimPct) (openScan pts g) rs) =
         pts @ map (spec_groupPoint trimPct) (spec_groups (g @ rs))"
  using assms
proof (induction rs arbitrary: pts g c)
  case Nil
  have "spec_groups (g @ []) = g # spec_groups []" using Nil.prems(1,2) by (intro spec_groups_block) auto
  then show ?case using Nil.prems(1) by (simp add: seriesFlush_open)
next
  case (Cons r rs)
  have hc: "row_scanID (hd g) = c" using Cons.prems(1,2) by (cases g) auto
  have st: "seriesRow trimPct (openScan pts g) r =
     (if row_scanID r = row_scanID (hd g) then openScan pts (g @ [r])
      else openScan (pts @ [spec_groupPoint trimPct g]) [r])"
    using Cons.prems(1,3) hc by (intro seriesRow_open) auto
  show ?case
  proof (cases "row_scanID r = c")
    case True
    have "seriesFlush trimPct (foldl (seriesRow trimPct) (openScan pts (g @ [r])) rs) =
         pts @ map (spec_groupPoint trimPct) (spec_groups ((g @ [r]) @ rs))"
      using Cons.prems True by (intro Cons.IH [where c = c]) auto
    then show ?thesis using True hc st by simp
  next
    case False
    have "seriesFlush trimPct (foldl (seriesRow trimPct) (openScan (pts @ [spec_groupPoint trimPct g]) [r]) rs) =
         (pts @ [spec_groupPoint trimPct g]) @ map (spec_groupPoint trimPct) (spec_groups ([r] @ rs))"
      using Cons.prems by (intro Cons.IH [where c = "row_scanID r"]) auto
    moreover have "spec_groups (g @ r # rs) = g # spec_groups (r # rs)"
      using Cons.prems(1,2) False by (intro spec_groups_block) auto
    ultimately show ?thesis using False hc st by simp
  qed
qed

lemma seriesPoints_groups:
  assumes "\<forall>r \<in> set rows. row_scanID r \<noteq> - 1"
  shows "seriesPoints rows trimPct = map (spec_groupPoint trimPct) (spec_groups rows)"
proof (cases rows)
  case Nil
  then show ?thesis by (simp add: seriesPoints_def seriesFlush_def seriesInit_def)
next
  case (Cons r rs)
  have "seriesFlush trimPct (foldl (seriesRow trimPct) (openScan [] [r]) rs) =
         [] @ map (spec_groupPoint trimPct) (spec_groups ([r] @ rs))"
    using assms Cons by (intro series_fold_open [where c = "row_scanID r"]) auto
  then show ?thesis using Cons by (simp add: seriesPoints_def seriesRow_init)
qed

lemma seriesPoints_sentinel:
  "seriesPoints [\<lparr>row_scanID = 5, row_ts = 100, row_price = 10\<rparr>,
                 \<lparr>row_scanID = - 1, row_ts = 101, row_price = 11\<rparr>,
                 \<lparr>row_scanID = 7, row_ts = 102, row_price = 12\<rparr>] 0 =
     [point \<lparr>scanID = 5, ts = 100, prices = [10]\<rparr> 0,
      point \<lparr>scanID = 7, ts = 102, prices = [12]\<rparr> 0]"
  by (simp add: seriesPoints_def seriesRow_def seriesInit_def seriesFlush_def reset_def add_def Let_def)

lemma spec_groups_sentinel:
  "spec_groups [\<lparr>row_scanID = 5, row_ts = 100, row_price = 10\<rparr>,
                 \<lparr>row_scanID = - 1, row_ts = 101, row_price = 11\<rparr>,
                 \<lparr>row_scanID = 7, row_ts = 102, row_price = 12\<rparr>] =
    [[\<lparr>row_scanID = 5, row_ts = 100, row_price = 10\<rparr>],
     [\<lparr>row_scanID = - 1, row_ts = 101, row_price = 11\<rparr>],
     [\<lparr>row_scanID = 7, row_ts = 102, row_price = 12\<rparr>]]"
  by simp

text \<open>
  Claim C5, amended. For every row stream in which no scan id equals \<open>-1\<close> (the value the
  loop uses for "no scan open"), the point list before sorting has exactly one point per
  contiguous group of rows with the same scan id, in stream order: a scan is closed
  exactly when a row with a different scan id arrives, and the last scan when the stream
  ends; the point of a group carries the group's scan id, the timestamp of its last row
  (a differing timestamp overwrites the scan's), and the reduction of its prices.
\<close>

theorem seriesPoints_by_groups:
  assumes "\<forall>r \<in> set rows. row_scanID r \<noteq> - 1"
  shows "seriesPoints rows trimPct = map (spec_groupPoint trimPct) (spec_groups rows)"
  using assms by (rule seriesPoints_groups)

theorem seriesPoints_by_groups_witness:
  "seriesPoints
     [\<lparr>row_scanID = 1, row_ts = 100, row_price = 10\<rparr>,
      \<lparr>row_scanID = 1, row_ts = 101, row_price = 20\<rparr>,
      \<lparr>row_scanID = 1, row_ts = 101, row_price = 30\<rparr>,
      \<lparr>row_scanID = 2, row_ts = 200, row_price = 5\<rparr>] 0 =
   [point \<lparr>scanID = 1, ts = 101, prices = [10, 20, 30]\<rparr> 0,
    point \<lparr>scanID = 2, ts = 200, prices = [5]\<rparr> 0]"
  using seriesPoints_by_groups [of "[\<lparr>row_scanID = 1, row_ts = 100, row_price = 10\<rparr>,
      \<lparr>row_scanID = 1, row_ts = 101, row_price = 20\<rparr>,
      \<lparr>row_scanID = 1, row_ts = 101, row_price = 30\<rparr>,
      \<lparr>row_scanID = 2, row_ts = 200, row_price = 5\<rparr>]" 0]
  by (simp add: spec_groupPoint_def)

text \<open>
  The claim as stated fails for a scan with id \<open>-1\<close>: its rows reset the accumulator one
  by one, and the next scan replaces it without a point. Three groups give two points.
\<close>

theorem seriesPoints_sentinel_scan:
  "length (spec_groups
     [\<lparr>row_scanID = 5, row_ts = 100, row_price = 10\<rparr>,
      \<lparr>row_scanID = - 1, row_ts = 101, row_price = 11\<rparr>,
      \<lparr>row_scanID = 7, row_ts = 102, row_price = 12\<rparr>]) = 3 \<and>
   seriesPoints
     [\<lparr>row_scanID = 5, row_ts = 100, row_price = 10\<rparr>,
      \<lparr>row_scanID = - 1, row_ts = 101, row_price = 11\<rparr>,
      \<lparr>row_scanID = 7, row_ts = 102, row_price = 12\<rparr>] 0 =
   [point \<lparr>scanID = 5, ts = 100, prices = [10]\<rparr> 0,
    point \<lparr>scanID = 7, ts = 102, prices = [12]\<rparr> 0]"
  by (simp add: seriesPoints_sentinel)

section \<open>The series builder: sorting and truncation\<close>

lemma point_N: "prices a \<noteq> [] \<Longrightarrow> N (point a trimPct) \<noteq> 0"
  using trimSorted_nonempty [of "prices a" trimPct] by (simp add: point_fields Let_def)

lemma seriesRow_inv:
  assumes "curScanID s = - 1 \<or> prices (acc s) \<noteq> []" "\<forall>p \<in> set (points s). N p \<noteq> 0"
  shows "prices (acc (seriesRow trimPct s r)) \<noteq> [] \<and>
         (\<forall>p \<in> set (points (seriesRow trimPct s r)). N p \<noteq> 0)"
proof (cases "curScanID s = - 1")
  case True
  then show ?thesis using assms(2) by (simp add: seriesRow_def reset_def add_def Let_def)
next
  case False
  with assms(1) have "prices (acc s) \<noteq> []" by simp
  then have "N (point (acc s) trimPct) \<noteq> 0" by (rule point_N)
  then show ?thesis using False assms(2) by (simp add: seriesRow_def reset_def add_def Let_def)
qed

lemma series_fold_inv:
  assumes "curScanID s = - 1 \<or> prices (acc s) \<noteq> []" "\<forall>p \<in> set (points s). N p \<noteq> 0"
  shows "\<forall>p \<in> set (seriesFlush trimPct (foldl (seriesRow trimPct) s rows)). N p \<noteq> 0"
  using assms
proof (induction rows arbitrary: s)
  case Nil
  then show ?case by (auto simp: seriesFlush_def point_N)
next
  case (Cons r rows)
  from seriesRow_inv [OF Cons.prems, of trimPct r] show ?case
    by (simp only: foldl_Cons) (intro Cons.IH; simp)
qed

lemma seriesPoints_N: "\<forall>p \<in> set (seriesPoints rows trimPct). N p \<noteq> 0"
  unfolding seriesPoints_def by (rule series_fold_inv) (simp_all add: seriesInit_def)

lemma sorted_drop_split:
  assumes "sorted (map f xs)"
  shows "\<forall>d \<in> set (take k xs). \<forall>e \<in> set (drop k xs). f d \<le> f e"
proof -
  have "sorted (map f (take k xs @ drop k xs))" using assms by simp
  then show ?thesis unfolding map_append sorted_append by auto
qed

lemma lastPoints_props:
  assumes "0 \<le> maxPoints" "sorted (map (\<lambda>p. sint (TS p)) pts)"
  shows "\<exists>out. lastPoints pts maxPoints = Inr out \<and>
           sorted (map (\<lambda>p. sint (TS p)) out) \<and>
           length out = min (length pts) (nat maxPoints) \<and>
           mset out \<subseteq># mset pts \<and>
           (\<forall>d \<in># mset pts - mset out. \<forall>k \<in> set out. sint (TS d) \<le> sint (TS k))"
proof (cases "int (length pts) > maxPoints")
  case False
  then show ?thesis using assms by (simp add: lastPoints_def)
next
  case True
  let ?k = "nat (int (length pts) - maxPoints)"
  let ?out = "drop ?k pts"
  have lp: "lastPoints pts maxPoints = Inr ?out" using True assms(1) by (simp add: lastPoints_def)
  have s: "sorted (map (\<lambda>p. sint (TS p)) ?out)"
    using assms(2) by (simp add: drop_map [symmetric] sorted_wrt_drop)
  have l: "length ?out = min (length pts) (nat maxPoints)" using True assms(1) by auto
  have m: "mset pts = mset (take ?k pts) + mset ?out"
    by (metis append_take_drop_id mset_append)
  have sub: "mset ?out \<subseteq># mset pts" unfolding m by simp
  have d: "mset pts - mset ?out = mset (take ?k pts)" unfolding m by simp
  have o: "\<forall>d \<in># mset pts - mset ?out. \<forall>k \<in> set ?out. sint (TS d) \<le> sint (TS k)"
    unfolding d using sorted_drop_split [OF assms(2), of ?k] by simp
  show ?thesis using lp s l sub o by blast
qed

text \<open>The sort: a permutation, ascending in the order that the comparator decides.\<close>

lemma insertBy_mset: "mset (insertBy lt x ys) = add_mset x (mset ys)"
  by (induction ys) simp_all

lemma sortSlice_mset: "mset (sortSlice lt xs) = mset xs"
  unfolding sortSlice_def by (induction xs) (simp_all add: insertBy_mset)

lemma insertBy_set: "set (insertBy lt x ys) = insert x (set ys)"
  using insertBy_mset [of lt x ys] by (metis set_mset_add_mset_insert set_mset_mset)

lemma insertBy_sorted:
  fixes k :: "'a \<Rightarrow> int"
  shows "sorted (map k ys) \<Longrightarrow> sorted (map k (insertBy (\<lambda>a b. k a < k b) x ys))"
proof (induction ys)
  case Nil
  then show ?case by simp
next
  case (Cons y ys)
  show ?case
  proof (cases "k x < k y")
    case True
    then show ?thesis using Cons.prems by auto
  next
    case False
    have "sorted (map k (insertBy (\<lambda>a b. k a < k b) x ys))" using Cons by simp
    moreover have "\<forall>z \<in> set (insertBy (\<lambda>a b. k a < k b) x ys). k y \<le> k z"
      using False Cons.prems by (auto simp: insertBy_set)
    ultimately show ?thesis using False by simp
  qed
qed

lemma sortSlice_sorted:
  fixes k :: "'a \<Rightarrow> int"
  shows "sorted (map k (sortSlice (\<lambda>a b. k a < k b) xs))"
  unfolding sortSlice_def by (induction xs) (simp_all add: insertBy_sorted)

lemma lessTS_sint: "lessTS = (\<lambda>a b. sint (TS a) < sint (TS b))"
  by (simp add: lessTS_def word_sless_alt fun_eq_iff)

lemma sortSlice_lessTS: "sorted (map (\<lambda>p. sint (TS p)) (sortSlice lessTS pts))"
  unfolding lessTS_sint by (rule sortSlice_sorted)

lemma handleSeries_props:
  assumes "0 \<le> maxPoints"
  shows "\<exists>out. handleSeries rows trimPct maxPoints = Inr out \<and>
           sorted (map (\<lambda>p. sint (TS p)) out) \<and>
           int (length out) \<le> maxPoints \<and>
           length out = min (length (seriesPoints rows trimPct)) (nat maxPoints) \<and>
           mset out \<subseteq># mset (seriesPoints rows trimPct) \<and>
           (\<forall>d \<in># mset (seriesPoints rows trimPct) - mset out. \<forall>k \<in> set out. sint (TS d) \<le> sint (TS k)) \<and>
           (\<forall>p \<in> set out. N p \<noteq> 0)"
proof -
  let ?pts = "seriesPoints rows trimPct"
  let ?srt = "sortSlice lessTS ?pts"
  have pm: "mset ?srt = mset ?pts" by (rule sortSlice_mset)
  have ps: "sorted (map (\<lambda>p. sint (TS p)) ?srt)" by (rule sortSlice_lessTS)
  have len: "length ?srt = length ?pts" using pm by (metis size_mset)
  from lastPoints_props [OF assms ps] obtain out where
    o: "lastPoints ?srt maxPoints = Inr out" "sorted (map (\<lambda>p. sint (TS p)) out)"
      "length out = min (length ?srt) (nat maxPoints)" "mset out \<subseteq># mset ?srt"
      "\<forall>d \<in># mset ?srt - mset out. \<forall>k \<in> set out. sint (TS d) \<le> sint (TS k)"
    by blast
  have "set out \<subseteq> set ?pts" using o(4) pm by (metis set_mset_mono set_mset_mset)
  then have n: "\<forall>p \<in> set out. N p \<noteq> 0" using seriesPoints_N [of rows trimPct] by blast
  have "int (length out) \<le> maxPoints" using o(3) assms by simp
  then show ?thesis using o n unfolding handleSeries_def pm len by blast
qed

text \<open>The budget that reaches the truncation is never negative; a negative one would panic.\<close>

lemma clampMaxPoints_range: "10 \<le> clampMaxPoints v \<and> clampMaxPoints v \<le> 5000"
  by (simp add: clampMaxPoints_def)

lemma lastPoints_negative: "maxPoints < 0 \<Longrightarrow> lastPoints pts maxPoints = Inl SliceBoundsOutOfRange"
  by (simp add: lastPoints_def)

text \<open>
  Claim C6. For every row stream, every trim percentage and every budget
  \<open>maxPoints \<ge> 0\<close> (\<^verbatim>\<open>parseMaxPointsParam\<close> delivers a budget between 10 and 5000), the
  series builder returns a point list that is sorted ascending by \<open>ts\<close> and has at most
  \<open>maxPoints\<close> points; it consists of \<open>min (number of points, maxPoints)\<close> of the points
  produced, and each point left out has a timestamp not after any point kept (the most
  recent points are kept); and it contains no point with \<open>n = 0\<close>.
\<close>

theorem handleSeries_output:
  assumes "0 \<le> maxPoints"
  shows "\<exists>out. handleSeries rows trimPct maxPoints = Inr out \<and>
           sorted (map (\<lambda>p. sint (TS p)) out) \<and>
           int (length out) \<le> maxPoints \<and>
           length out = min (length (seriesPoints rows trimPct)) (nat maxPoints) \<and>
           mset out \<subseteq># mset (seriesPoints rows trimPct) \<and>
           (\<forall>d \<in># mset (seriesPoints rows trimPct) - mset out. \<forall>k \<in> set out. sint (TS d) \<le> sint (TS k)) \<and>
           (\<forall>p \<in> set out. N p \<noteq> 0)"
  using assms by (rule handleSeries_props)

text \<open>
  The rows of scan 2 arrive first and carry the later timestamp: the two points are
  produced in the order of the scans and returned in the order of the timestamps.
\<close>

theorem handleSeries_output_witness:
  "handleSeries
     [\<lparr>row_scanID = 2, row_ts = 200, row_price = 5\<rparr>,
      \<lparr>row_scanID = 1, row_ts = 100, row_price = 10\<rparr>,
      \<lparr>row_scanID = 1, row_ts = 101, row_price = 20\<rparr>,
      \<lparr>row_scanID = 1, row_ts = 101, row_price = 30\<rparr>] 0 (clampMaxPoints 1) =
   Inr [point \<lparr>scanID = 1, ts = 101, prices = [10, 20, 30]\<rparr> 0,
        point \<lparr>scanID = 2, ts = 200, prices = [5]\<rparr> 0]"
proof -
  have sp: "seriesPoints
     [\<lparr>row_scanID = 2, row_ts = 200, row_price = 5\<rparr>,
      \<lparr>row_scanID = 1, row_ts = 100, row_price = 10\<rparr>,
      \<lparr>row_scanID = 1, row_ts = 101, row_price = 20\<rparr>,
      \<lparr>row_scanID = 1, row_ts = 101, row_price = 30\<rparr>] 0 =
   [point \<lparr>scanID = 2, ts = 200, prices = [5]\<rparr> 0,
    point \<lparr>scanID = 1, ts = 101, prices = [10, 20, 30]\<rparr> 0]"
    by (simp add: seriesPoints_groups spec_groupPoint_def)
  have ts: "TS (point \<lparr>scanID = 2, ts = 200, prices = [5]\<rparr> 0) = 200"
    "TS (point \<lparr>scanID = 1, ts = 101, prices = [10, 20, 30]\<rparr> 0) = 101"
    by (simp_all add: point_fields Let_def)
  have "\<exists>out. handleSeries
     [\<lparr>row_scanID = 2, row_ts = 200, row_price = 5\<rparr>,
      \<lparr>row_scanID = 1, row_ts = 100, row_price = 10\<rparr>,
      \<lparr>row_scanID = 1, row_ts = 101, row_price = 20\<rparr>,
      \<lparr>row_scanID = 1, row_ts = 101, row_price = 30\<rparr>] 0 (clampMaxPoints 1) = Inr out"
    using handleSeries_output [of "clampMaxPoints 1"
      "[\<lparr>row_scanID = 2, row_ts = 200, row_price = 5\<rparr>,
      \<lparr>row_scanID = 1, row_ts = 100, row_price = 10\<rparr>,
      \<lparr>row_scanID = 1, row_ts = 101, row_price = 20\<rparr>,
      \<lparr>row_scanID = 1, row_ts = 101, row_price = 30\<rparr>]" 0]
    by (auto simp: clampMaxPoints_def)
  then show ?thesis
    by (simp add: handleSeries_def sp sortSlice_def lessTS_def ts lastPoints_def clampMaxPoints_def
        word_sless_alt)
qed

section \<open>The reducer: mean and variance\<close>








text \<open>The running mean does not depend on the second moment, nor on how it is accumulated.\<close>

lemma welford_mean_indep:
  "fst (welford rnd fused i mean m2 ps) = fst (welford rnd fused' i mean m2' ps)"
  by (induction ps arbitrary: i mean m2 m2') (simp_all add: Let_def)













lemma point_build_fields:
  assumes "prices a \<noteq> []"
  shows "point_build fused a trimPct =
     (point a trimPct)\<lparr>Stddev := fsqrt (variance f64 fused (trimSorted (prices a) trimPct))\<rparr>"
  using assms trimSorted_nonempty [OF assms, of trimPct]
    welford_mean_indep [of f64 fused 0 0 0 "trimSorted (prices a) trimPct" False 0]
  by (simp add: point_def point_build_def Let_def)



















end
